theory Spec2Isabelle
  imports Main "HOL-Library.Sublist"
begin

section \<open>Python values\<close>

text \<open>
  The exceptions that the two modules raise, or that reach them from the Python runtime,
  \<^verbatim>\<open>datetime\<close>, Selenium and Django. A raise is the left injection of a sum; a bare
  \<^verbatim>\<open>except:\<close> clause is a case distinction that drops the error.
\<close>

datatype error =
    ValidationError
  | NameError
  | UnboundLocalError
  | OverflowError
  | NoSuchElementException
  | StaleElementReferenceException
  | TimeoutException
  | WebDriverException

text \<open>The values that a caller can pass for an argument that the code tests with
  \<^verbatim>\<open>is None\<close> and \<^verbatim>\<open>type(x) is not str\<close>.\<close>

datatype pyval = PyNone | PyStr string | PyInt int

subsection \<open>\<^verbatim>\<open>str\<close> of an integer\<close>

definition digit_chars :: string where
  "digit_chars = ''0123456789''"

fun str_nat :: "nat \<Rightarrow> string" where
  "str_nat n = (if n < 10 then [digit_chars ! n] else str_nat (n div 10) @ [digit_chars ! (n mod 10)])"

declare str_nat.simps [simp del]

text \<open>Python's \<^verbatim>\<open>str(number)\<close> for an \<^verbatim>\<open>int\<close>: a minus sign, then the decimal digits.\<close>

definition str :: "int \<Rightarrow> string" where
  "str i = (if i < 0 then CHR ''-'' # str_nat (nat (- i)) else str_nat (nat i))"

section \<open>The \<^verbatim>\<open>datetime.date\<close> operations used by views.py\<close>

text \<open>
  A \<^verbatim>\<open>date\<close> has the fields year, month and day. Subtracting a \<^verbatim>\<open>timedelta\<close> goes
  through the proleptic Gregorian ordinal (day 1 is 0001-01-01), as in CPython's
  \<^verbatim>\<open>datetime\<close> module: \<^verbatim>\<open>_ymd2ord\<close>, \<^verbatim>\<open>_ord2ymd\<close> and \<^verbatim>\<open>date.__add__\<close>.
\<close>

record date =
  year :: int
  month :: int
  day :: int

definition MINYEAR :: int where "MINYEAR = 1"
definition MAXYEAR :: int where "MAXYEAR = 9999"
definition MAXORDINAL :: int where "MAXORDINAL = 3652059"

definition DAYS_IN_MONTH :: "int list" where
  "DAYS_IN_MONTH = [- 1, 31, 28, 31, 30, 31, 30, 31, 31, 30, 31, 30, 31]"

definition DAYS_BEFORE_MONTH :: "int list" where
  "DAYS_BEFORE_MONTH = [- 1, 0, 31, 59, 90, 120, 151, 181, 212, 243, 273, 304, 334]"

definition is_leap :: "int \<Rightarrow> bool" where
  "is_leap y = (y mod 4 = 0 \<and> (y mod 100 \<noteq> 0 \<or> y mod 400 = 0))"

definition days_before_year :: "int \<Rightarrow> int" where
  "days_before_year yr = (let y = yr - 1 in y * 365 + y div 4 - y div 100 + y div 400)"

definition days_in_month :: "int \<Rightarrow> int \<Rightarrow> int" where
  "days_in_month y m = (if m = 2 \<and> is_leap y then 29 else DAYS_IN_MONTH ! nat m)"

definition days_before_month :: "int \<Rightarrow> int \<Rightarrow> int" where
  "days_before_month y m = DAYS_BEFORE_MONTH ! nat m + (if m > 2 \<and> is_leap y then 1 else 0)"

definition ymd2ord :: "int \<Rightarrow> int \<Rightarrow> int \<Rightarrow> int" where
  "ymd2ord y m d = days_before_year y + days_before_month y m + d"

definition DI400Y :: int where "DI400Y = 146097"
definition DI100Y :: int where "DI100Y = 36524"
definition DI4Y :: int where "DI4Y = 1461"

text \<open>The month and day of the \<open>k\<close>-th day (from 0) of a year: the second half of
  \<^verbatim>\<open>_ord2ymd\<close>, which estimates the month by a shift and corrects the estimate.\<close>

definition month_day :: "int \<Rightarrow> bool \<Rightarrow> int \<Rightarrow> date" where
  "month_day yr leapyear k =
     (let mo = (k + 50) div 32;
          preceding = DAYS_BEFORE_MONTH ! nat mo + (if mo > 2 \<and> leapyear then 1 else 0)
      in if preceding > k
         then let mo = mo - 1;
                  preceding = preceding - (DAYS_IN_MONTH ! nat mo + (if mo = 2 \<and> leapyear then 1 else 0))
              in \<lparr>year = yr, month = mo, day = k - preceding + 1\<rparr>
         else \<lparr>year = yr, month = mo, day = k - preceding + 1\<rparr>)"

definition ord2ymd :: "int \<Rightarrow> date" where
  "ord2ymd n0 =
    (let n = n0 - 1;
         n400 = n div DI400Y; n = n mod DI400Y;
         yr = n400 * 400 + 1;
         n100 = n div DI100Y; n = n mod DI100Y;
         n4 = n div DI4Y; n = n mod DI4Y;
         n1 = n div 365; n = n mod 365;
         yr = yr + n100 * 100 + n4 * 4 + n1
     in if n1 = 4 \<or> n100 = 4 then \<lparr>year = yr - 1, month = 12, day = 31\<rparr>
        else month_day yr (n1 = 3 \<and> (n4 \<noteq> 24 \<or> n100 = 3)) n)"

definition toordinal :: "date \<Rightarrow> int" where
  "toordinal d = ymd2ord (year d) (month d) (day d)"

text \<open>The dates that \<^verbatim>\<open>date(year, month, day)\<close> accepts (\<^verbatim>\<open>_check_date_fields\<close>).\<close>

definition valid_date :: "date \<Rightarrow> bool" where
  "valid_date d =
     (MINYEAR \<le> year d \<and> year d \<le> MAXYEAR \<and> 1 \<le> month d \<and> month d \<le> 12
      \<and> 1 \<le> day d \<and> day d \<le> days_in_month (year d) (month d))"

text \<open>\<^verbatim>\<open>timedelta(days)\<close>: the day count, limited to 999999999 in magnitude.\<close>

definition timedelta :: "int \<Rightarrow> error + int" where
  "timedelta days = (if - 999999999 \<le> days \<and> days \<le> 999999999 then Inr days else Inl OverflowError)"

text \<open>\<^verbatim>\<open>date - timedelta\<close>: \<^verbatim>\<open>self + timedelta(-other.days)\<close>, which raises
  \<^verbatim>\<open>OverflowError\<close> when the ordinal leaves 1..MAXORDINAL.\<close>

definition date_sub :: "date \<Rightarrow> int \<Rightarrow> error + date" where
  "date_sub d days =
     (let ordinal = toordinal d + (- days)
      in if 0 < ordinal \<and> ordinal \<le> MAXORDINAL then Inr (ord2ymd ordinal) else Inl OverflowError)"

text \<open>\<^verbatim>\<open>%m\<close> and \<^verbatim>\<open>%d\<close> print two digits; \<^verbatim>\<open>%Y\<close> prints the year in decimal (the C
  library pads neither a year from 1000 nor, with glibc, an earlier one).\<close>

definition zero_pad2 :: "int \<Rightarrow> string" where
  "zero_pad2 n = (if n < 10 then CHR ''0'' # str n else str n)"

definition strftime_mdY :: "date \<Rightarrow> string" where
  "strftime_mdY d = zero_pad2 (month d) @ ''/'' @ zero_pad2 (day d) @ ''/'' @ str (year d)"

section \<open>distiller/views.py: dates for the search form\<close>

text \<open>
  \<^verbatim>\<open>
  def _format_date_for_fac_fields(date):
      return date.strftime("%m/%d/%Y")

  def _calculate_start_date(time_difference=90, end_date=date.today()):
      start_date = end_date - timedelta(time_difference)
      return _format_date_for_fac_fields(start_date)
  \<close>
  An Isabelle name cannot start with an underscore, so the leading underscore is dropped.
\<close>

definition format_date_for_fac_fields :: "date \<Rightarrow> string" where
  "format_date_for_fac_fields d = strftime_mdY d"

definition calculate_start_date :: "int \<Rightarrow> date \<Rightarrow> error + string" where
  "calculate_start_date time_difference end_date =
     (case timedelta time_difference of
        Inl e \<Rightarrow> Inl e
      | Inr delta \<Rightarrow>
          (case date_sub end_date delta of
             Inl e \<Rightarrow> Inl e
           | Inr start_date \<Rightarrow> Inr (format_date_for_fac_fields start_date)))"

section \<open>resolve\_findings/models.py\<close>

text \<open>
  \<^verbatim>\<open>
  def validate_cfda_number(number):
      if len(str(number)) != 5:
          raise ValidationError(...)
  \<close>
\<close>

definition validate_cfda_number :: "int \<Rightarrow> error + unit" where
  "validate_cfda_number number =
     (if length (str number) \<noteq> 5 then Inl ValidationError else Inr ())"

text \<open>
  \<^verbatim>\<open>cfda = models.IntegerField(validators=[validate_cfda_number])\<close>: the validators that the
  model lists for \<^verbatim>\<open>Grant.cfda\<close>, and Django's \<^verbatim>\<open>run_validators\<close> over such a list,
  which calls every validator and raises when one of them did.
\<close>

definition Grant_cfda_validators :: "(int \<Rightarrow> error + unit) list" where
  "Grant_cfda_validators = [validate_cfda_number]"

fun run_validators :: "(int \<Rightarrow> error + unit) list \<Rightarrow> int \<Rightarrow> error + unit" where
  "run_validators [] v = Inr ()"
| "run_validators (f # fs) v =
     (case f v of
        Inl e \<Rightarrow> (case run_validators fs v of _ \<Rightarrow> Inl e)
      | Inr _ \<Rightarrow> run_validators fs v)"

section \<open>The browser that Selenium drives\<close>

text \<open>
  The portal and the browser are external. A \<open>portal\<close> describes what the browser
  shows: documents are numbered, and the portal says which document a URL loads, which
  element ids a document has, which document a click leads to, which option values the
  select box with a given id offers, which links the pager row \<^verbatim>\<open>tr.GridPager\<close> holds
  (\<open>None\<close>: the document has no such row), and which items the browser's download
  manager lists when the page script runs for the \<open>n\<close>-th time.
\<close>

type_synonym doc = nat

record download_item =
  item_state :: string
  fileUrl :: "string option"
  file_url :: "string option"

record portal =
  page_at :: "string \<Rightarrow> doc"
  url_of :: "doc \<Rightarrow> string"
  element_ids :: "doc \<Rightarrow> string list"
  after_click :: "doc \<Rightarrow> string \<Rightarrow> doc"
  select_options :: "doc \<Rightarrow> string \<Rightarrow> string list"
  pager_links :: "doc \<Rightarrow> (string \<times> doc) list option"
  download_items :: "nat \<Rightarrow> download_item list"

text \<open>A \<^verbatim>\<open>WebElement\<close> remembers the document it was found on; using it on another
  document raises \<^verbatim>\<open>StaleElementReferenceException\<close>.\<close>

datatype web_element =
    Element doc string
  | PagerRow doc
  | PagerLink doc string doc

fun found_on :: "web_element \<Rightarrow> doc" where
  "found_on (Element dc i) = dc"
| "found_on (PagerRow dc) = dc"
| "found_on (PagerLink dc label target) = dc"

datatype keys = Typed string | RETURN

text \<open>What the run does to the outside, in order. \<open>CalledDownloadAll\<close> is a trace
  mark that \<^verbatim>\<open>download_all_linked_files\<close> leaves when it is entered; it stands for no
  browser action.\<close>

datatype event =
    Printed string
  | Get string
  | Click doc string
  | FollowLink doc string
  | Clear doc string
  | SendKeys doc string keys
  | SelectByValue doc string string
  | CalledDownloadAll doc
  | Quit

record driver =
  session_open :: bool
  current :: doc
  clock :: nat
  scripts_run :: nat
  events :: "event list"

type_synonym 'a action = "driver \<Rightarrow> (error + 'a) \<times> driver"

definition bind_action :: "'a action \<Rightarrow> ('a \<Rightarrow> 'b action) \<Rightarrow> 'b action" where
  "bind_action m f d = (case m d of (Inl e, d') \<Rightarrow> (Inl e, d') | (Inr x, d') \<Rightarrow> f x d')"

fun run_steps :: "unit action list \<Rightarrow> unit action" where
  "run_steps [] d = (Inr (), d)"
| "run_steps (a # rest) d = (case a d of (Inl e, d') \<Rightarrow> (Inl e, d') | (Inr _, d') \<Rightarrow> run_steps rest d')"

definition raise_or_return :: "error + 'a \<Rightarrow> 'a action" where
  "raise_or_return r d = (r, d)"

definition record_event :: "event \<Rightarrow> driver \<Rightarrow> driver" where
  "record_event e d = d\<lparr>events := events d @ [e]\<rparr>"

text \<open>\<^verbatim>\<open>time.sleep\<close> and \<^verbatim>\<open>driver.get\<close> do not fail here; \<open>always\<close> makes a step
  of them.\<close>

definition sleep :: "nat \<Rightarrow> driver \<Rightarrow> driver" where
  "sleep seconds d = d\<lparr>clock := clock d + seconds\<rparr>"

definition get :: "portal \<Rightarrow> string \<Rightarrow> driver \<Rightarrow> driver" where
  "get p url d = record_event (Get url) (d\<lparr>current := page_at p url\<rparr>)"

definition always :: "(driver \<Rightarrow> driver) \<Rightarrow> unit action" where
  "always f d = (Inr (), f d)"

definition find_element_by_id :: "portal \<Rightarrow> string \<Rightarrow> web_element action" where
  "find_element_by_id p i d =
     (if i \<in> set (element_ids p (current d)) then (Inr (Element (current d) i), d)
      else (Inl NoSuchElementException, d))"

definition find_element_by_css_selector :: "portal \<Rightarrow> string \<Rightarrow> web_element action" where
  "find_element_by_css_selector p selector d =
     (if selector = ''tr.GridPager'' \<and> pager_links p (current d) \<noteq> None
      then (Inr (PagerRow (current d)), d)
      else (Inl NoSuchElementException, d))"

text \<open>\<^verbatim>\<open>element.find_element_by_link_text(label)\<close>: the first link of the pager row whose
  text is the label.\<close>

definition find_element_by_link_text :: "portal \<Rightarrow> web_element \<Rightarrow> string \<Rightarrow> web_element action" where
  "find_element_by_link_text p row label d =
     (if found_on row \<noteq> current d then (Inl StaleElementReferenceException, d)
      else case row of
             PagerRow dc \<Rightarrow>
               (case pager_links p dc of
                  None \<Rightarrow> (Inl NoSuchElementException, d)
                | Some links \<Rightarrow>
                    (case find (\<lambda>l. fst l = label) links of
                       None \<Rightarrow> (Inl NoSuchElementException, d)
                     | Some l \<Rightarrow> (Inr (PagerLink dc label (snd l)), d)))
           | _ \<Rightarrow> (Inl NoSuchElementException, d))"

definition click :: "portal \<Rightarrow> web_element \<Rightarrow> unit action" where
  "click p e d =
     (if found_on e \<noteq> current d then (Inl StaleElementReferenceException, d)
      else case e of
             Element dc i \<Rightarrow> (Inr (), record_event (Click dc i) (d\<lparr>current := after_click p dc i\<rparr>))
           | PagerLink dc label target \<Rightarrow>
               (Inr (), record_event (FollowLink dc label) (d\<lparr>current := target\<rparr>))
           | PagerRow dc \<Rightarrow> (Inr (), d))"

definition clear :: "web_element \<Rightarrow> unit action" where
  "clear e d =
     (if found_on e \<noteq> current d then (Inl StaleElementReferenceException, d)
      else case e of
             Element dc i \<Rightarrow> (Inr (), record_event (Clear dc i) d)
           | _ \<Rightarrow> (Inr (), d))"

definition send_keys :: "web_element \<Rightarrow> keys \<Rightarrow> unit action" where
  "send_keys e k d =
     (if found_on e \<noteq> current d then (Inl StaleElementReferenceException, d)
      else case e of
             Element dc i \<Rightarrow> (Inr (), record_event (SendKeys dc i k) d)
           | _ \<Rightarrow> (Inr (), d))"

text \<open>\<^verbatim>\<open>Select(element).select_by_value(v)\<close> raises \<^verbatim>\<open>NoSuchElementException\<close> when
  the select box has no option with that value.\<close>

definition select_by_value :: "portal \<Rightarrow> web_element \<Rightarrow> string \<Rightarrow> unit action" where
  "select_by_value p e v d =
     (if found_on e \<noteq> current d then (Inl StaleElementReferenceException, d)
      else case e of
             Element dc i \<Rightarrow>
               (if v \<in> set (select_options p dc i)
                then (Inr (), record_event (SelectByValue dc i v) d)
                else (Inl NoSuchElementException, d))
           | _ \<Rightarrow> (Inl NoSuchElementException, d))"

definition quit :: "driver \<Rightarrow> driver" where
  "quit d = record_event Quit (d\<lparr>session_open := False\<rparr>)"

text \<open>\<^verbatim>\<open>find(...).click()\<close> and a lookup whose result is dropped.\<close>

definition click_id :: "portal \<Rightarrow> string \<Rightarrow> unit action" where
  "click_id p i = bind_action (find_element_by_id p i) (click p)"

definition locate_id :: "portal \<Rightarrow> string \<Rightarrow> unit action" where
  "locate_id p i = bind_action (find_element_by_id p i) (\<lambda>_. raise_or_return (Inr ()))"

section \<open>distiller/views.py: the download workflow\<close>

definition FAC_URL :: string where
  "FAC_URL = ''https://harvester.census.gov/facdissem/SearchA133.aspx''"

definition DEPT_OF_TRANSPORTATION_PREFIX :: string where
  "DEPT_OF_TRANSPORTATION_PREFIX = ''20''"

definition FTA_SUBAGENCY_CODE :: string where
  "FTA_SUBAGENCY_CODE = ''5''"

text \<open>
  What a call of the workflow finds around it: whether the chromedriver executable can be
  opened, the day on which views.py was imported, the day of the call, and the portal.
\<close>

record env =
  chromedriver_present :: bool
  module_loaded_on :: date
  today :: date
  fac :: portal

text \<open>
  The default \<^verbatim>\<open>end_date=date.today()\<close> of \<^verbatim>\<open>_calculate_start_date\<close> is evaluated once,
  when the \<^verbatim>\<open>def\<close> statement runs, that is when the module is imported; a call that
  leaves the argument out gets that day.
\<close>

definition default_end_date :: "env \<Rightarrow> date" where
  "default_end_date ev = module_loaded_on ev"

definition no_browser :: driver where
  "no_browser = \<lparr>session_open = False, current = 0, clock = 0, scripts_run = 0, events = []\<rparr>"

text \<open>\<^verbatim>\<open>check_for_chromedriver\<close> prints a message when the file cannot be opened and
  returns; \<^verbatim>\<open>webdriver.Chrome(path)\<close> then raises.\<close>

definition check_for_chromedriver :: "env \<Rightarrow> driver \<Rightarrow> driver" where
  "check_for_chromedriver ev d =
     (if chromedriver_present ev then d
      else record_event (Printed ''Chromedriver could not be opened.'') d)"

definition webdriver_Chrome :: "env \<Rightarrow> unit action" where
  "webdriver_Chrome ev d =
     (if chromedriver_present ev then (Inr (), d\<lparr>session_open := True\<rparr>)
      else (Inl WebDriverException, d))"

subsection \<open>\<^verbatim>\<open>list_completed_chrome_downloads\<close> and the wait\<close>

text \<open>JavaScript's \<^verbatim>\<open>a || b\<close> on two strings that may be undefined.\<close>

definition js_or :: "string option \<Rightarrow> string option \<Rightarrow> string option" where
  "js_or a b = (case a of None \<Rightarrow> b | Some s \<Rightarrow> if s = [] then b else Some s)"

text \<open>
  \<^verbatim>\<open>
  if not driver.current_url.startswith("chrome://downloads"):
      driver.get("chrome://downloads/")
  return driver.execute_script("""
      var items = downloads.Manager.get().items_;
      if (items.every(e => e.state === "COMPLETE"))
          return items.map(e => e.fileUrl || e.file_url);
      """)
  \<close>
  The script returns nothing (\<open>None\<close>) unless every item is complete.
\<close>

definition list_completed_chrome_downloads ::
    "portal \<Rightarrow> driver \<Rightarrow> string option list option \<times> driver" where
  "list_completed_chrome_downloads p d =
     (let d1 = (if \<not> prefix ''chrome://downloads'' (url_of p (current d))
                then get p ''chrome://downloads/'' d
                else d);
          items = download_items p (scripts_run d1);
          d2 = d1\<lparr>scripts_run := scripts_run d1 + 1\<rparr>
      in if list_all (\<lambda>e. item_state e = ''COMPLETE'') items
         then (Some (map (\<lambda>e. js_or (fileUrl e) (file_url e)) items), d2)
         else (None, d2))"

text \<open>Python's truth value of what the script returned: \<^verbatim>\<open>None\<close> and the empty list
  are false.\<close>

fun truthy :: "string option list option \<Rightarrow> bool" where
  "truthy None = False"
| "truthy (Some []) = False"
| "truthy (Some (x # xs)) = True"

text \<open>
  Selenium's \<^verbatim>\<open>WebDriverWait(driver, timeout, 1).until(list_completed_chrome_downloads)\<close>:
  \<^verbatim>\<open>
  end_time = time.time() + self._timeout
  while True:
      value = method(self._driver)
      if value:
          return value
      time.sleep(self._poll)
      if time.time() > end_time:
          break
  raise TimeoutException(message, screen, stacktrace)
  \<close>
  Time is the clock of the run, which only \<^verbatim>\<open>sleep\<close> advances.
\<close>

lemma clock_list_completed_chrome_downloads:
  "clock (snd (list_completed_chrome_downloads p d)) = clock d"
  by (simp add: list_completed_chrome_downloads_def Let_def record_event_def get_def)

function until_loop :: "portal \<Rightarrow> nat \<Rightarrow> driver \<Rightarrow> (error + string option list) \<times> driver" where
  "until_loop p end_time d =
     (let r = list_completed_chrome_downloads p d
      in if truthy (fst r) then (Inr (the (fst r)), snd r)
         else let d2 = sleep 1 (snd r)
              in if clock d2 > end_time then (Inl TimeoutException, d2)
                 else until_loop p end_time d2)"
  by pat_completeness auto
termination
  by (relation "measure (\<lambda>(p, end_time, d). end_time + 1 - clock d)")
    (simp_all add: clock_list_completed_chrome_downloads sleep_def)

declare until_loop.simps [simp del]

definition WebDriverWait_until :: "portal \<Rightarrow> nat \<Rightarrow> driver \<Rightarrow> (error + string option list) \<times> driver" where
  "WebDriverWait_until p timeout d = until_loop p (clock d + timeout) d"

subsection \<open>\<^verbatim>\<open>download_one_set_of_result_files\<close> and \<^verbatim>\<open>download_all_linked_files\<close>\<close>

text \<open>
  The loop over \<^verbatim>\<open>range(max_number_of_search_results)\<close>:
  \<^verbatim>\<open>
  link_name = 'MainContent_ucA133SearchResults_ResultsGrid_lnkbutton' + name_suffix + '_' + str(i)
  try:
      download_link = driver.find_element_by_id(link_name)
  except:
      Exception(" Selenium couldn't find that element.")
  download_link.click()
  \<close>
  The \<^verbatim>\<open>except\<close> clause builds an exception and drops it. The local \<^verbatim>\<open>download_link\<close>
  is \<open>None\<close> while nothing has been assigned to it; reading it then raises
  \<^verbatim>\<open>UnboundLocalError\<close>. After a lookup that failed it still holds the element of an
  earlier round.
\<close>

definition result_link_name :: "string \<Rightarrow> nat \<Rightarrow> string" where
  "result_link_name name_suffix i =
     ''MainContent_ucA133SearchResults_ResultsGrid_lnkbutton'' @ name_suffix @ ''_'' @ str (int i)"

fun click_result_links ::
    "portal \<Rightarrow> string \<Rightarrow> nat list \<Rightarrow> web_element option \<Rightarrow> unit action" where
  "click_result_links p name_suffix [] download_link d = (Inr (), d)"
| "click_result_links p name_suffix (i # rest) download_link d =
     (let link_name = result_link_name name_suffix i;
          download_link = (case find_element_by_id p link_name d of
                             (Inr e, _) \<Rightarrow> Some e
                           | (Inl _, _) \<Rightarrow> download_link)
      in case download_link of
           None \<Rightarrow> (Inl UnboundLocalError, d)
         | Some e \<Rightarrow>
             (case click p e d of
                (Inl err, d') \<Rightarrow> (Inl err, d')
              | (Inr _, d') \<Rightarrow> click_result_links p name_suffix rest download_link d'))"

definition max_number_of_search_results :: nat where
  "max_number_of_search_results = 25"

definition download_one_set_of_result_files :: "portal \<Rightarrow> string \<Rightarrow> bool action" where
  "download_one_set_of_result_files p file_type d =
     (if file_type = ''SF-SAC'' \<or> file_type = ''PDF'' then
        (let name_suffix = (if file_type = ''SF-SAC'' then ''Form'' else ''Audit'')
         in case click_result_links p name_suffix [0..<max_number_of_search_results] None d of
              (Inl e, d') \<Rightarrow> (Inl e, d')
            | (Inr _, d') \<Rightarrow> (Inr True, d'))
      else (Inr False, d))"

text \<open>Each of the two calls stands in a \<^verbatim>\<open>try\<close> whose bare \<^verbatim>\<open>except\<close> drops the
  error: the browser keeps what was done before the raise, and the function returns
  nothing.\<close>

definition download_all_linked_files :: "portal \<Rightarrow> driver \<Rightarrow> driver" where
  "download_all_linked_files p d =
     (let d0 = record_event (CalledDownloadAll (current d)) d;
          d1 = snd (download_one_set_of_result_files p ''SF-SAC'' d0);
          d2 = snd (download_one_set_of_result_files p ''PDF'' d1)
      in d2)"

subsection \<open>\<^verbatim>\<open>get_next_pager_link\<close> and the loop over the result pages\<close>

text \<open>
  \<^verbatim>\<open>
  link_to_next_page = False
  try:
      pager = driver.find_element_by_css_selector('tr.GridPager')
  except:
      Exception(" No pager was found!")
  try:
      link_to_next_page = pager.find_element_by_link_text(str(page_index + 1))
  except:
      Exception(" No next page was found.")
  return link_to_next_page
  \<close>
  \<open>None\<close> stands for \<^verbatim>\<open>False\<close>. When no pager row was found, \<^verbatim>\<open>pager\<close> is unbound
  and the second \<^verbatim>\<open>try\<close> drops the \<^verbatim>\<open>UnboundLocalError\<close>.
\<close>

definition get_next_pager_link :: "portal \<Rightarrow> driver \<Rightarrow> nat \<Rightarrow> web_element option" where
  "get_next_pager_link p d page_index =
     (let link_to_next_page = None;
          pager = (case find_element_by_css_selector p ''tr.GridPager'' d of
                     (Inr e, _) \<Rightarrow> Some e
                   | (Inl _, _) \<Rightarrow> None)
      in case pager of
           None \<Rightarrow> link_to_next_page
         | Some row \<Rightarrow>
             (case find_element_by_link_text p row (str (int (page_index + 1))) d of
                (Inr l, _) \<Rightarrow> Some l
              | (Inl _, _) \<Rightarrow> link_to_next_page))"

text \<open>
  \<^verbatim>\<open>
  while link_to_next_page:
      link_to_next_page.click()
      current_page_index += 1
      time.sleep(1)
      download_all_linked_files(driver)
      link_to_next_page = get_next_pager_link(driver, current_page_index)
  \<close>
  Nothing bounds the number of pages, so the loop is a partial function: \<open>None\<close> is a
  run that never leaves it.
\<close>

partial_function (option) pager_loop ::
    "portal \<Rightarrow> web_element option \<Rightarrow> nat \<Rightarrow> driver \<Rightarrow> ((error + nat) \<times> driver) option" where
  "pager_loop p link_to_next_page current_page_index d =
     (case link_to_next_page of
        None \<Rightarrow> Some (Inr current_page_index, d)
      | Some l \<Rightarrow>
          (case click p l d of
             (Inl e, d1) \<Rightarrow> Some (Inl e, d1)
           | (Inr _, d1) \<Rightarrow>
               (let current_page_index = current_page_index + 1;
                    d2 = sleep 1 d1;
                    d3 = download_all_linked_files p d2
                in pager_loop p (get_next_pager_link p d3 current_page_index) current_page_index d3)))"

declare pager_loop.simps [code]

text \<open>Step 10 of \<^verbatim>\<open>download_files_from_fac\<close>: the files of the first page, then the
  loop. The result is the last value of \<^verbatim>\<open>current_page_index\<close>.\<close>

definition download_result_pages :: "portal \<Rightarrow> driver \<Rightarrow> ((error + nat) \<times> driver) option" where
  "download_result_pages p d =
     (let d0 = download_all_linked_files p d;
          current_page_index = 1;
          link_to_next_page = get_next_pager_link p d0 current_page_index
      in pager_loop p link_to_next_page current_page_index d0)"

subsection \<open>\<^verbatim>\<open>download_files_from_fac\<close>\<close>

definition keys_of :: "pyval \<Rightarrow> keys" where
  "keys_of v = (case v of PyStr s \<Rightarrow> Typed s | PyInt i \<Rightarrow> Typed (str i) | PyNone \<Rightarrow> Typed [])"

text \<open>Steps 1 to 9: load the search page, fill in the two dates and the CFDA filter,
  search, and pass the agreement page.\<close>

definition search_fac :: "env \<Rightarrow> string \<Rightarrow> pyval \<Rightarrow> unit action" where
  "search_fac ev agency_prefix subagency_extension =
     run_steps
      [always (get (fac ev) FAC_URL),
       always (sleep 2),
       click_id (fac ev) ''ui-id-1'',
       bind_action (find_element_by_id (fac ev) ''MainContent_UcSearchFilters_DateProcessedControl_FromDate'')
         (\<lambda>from_date_field.
       bind_action (raise_or_return (calculate_start_date 90 (default_end_date ev)))
         (\<lambda>from_date.
            run_steps
             [clear from_date_field,
              send_keys from_date_field (Typed from_date),
              send_keys from_date_field RETURN])),
       bind_action (raise_or_return (date_sub (today ev) 1))
         (\<lambda>yesterday.
       bind_action (find_element_by_id (fac ev) ''MainContent_UcSearchFilters_DateProcessedControl_ToDate'')
         (\<lambda>to_date_field.
            run_steps
             [clear to_date_field,
              send_keys to_date_field (Typed (format_date_for_fac_fields yesterday)),
              send_keys to_date_field RETURN])),
       click_id (fac ev) ''ui-id-5'',
       locate_id (fac ev) ''MainContent_UcSearchFilters_CDFASelectionControl_SelectionControlTable'',
       bind_action (find_element_by_id (fac ev) ''cfdaPrefix'')
         (\<lambda>cfda_select. select_by_value (fac ev) cfda_select agency_prefix),
       bind_action (find_element_by_id (fac ev) ''cfdaExt'')
         (\<lambda>cfda_extension.
            run_steps
             [clear cfda_extension,
              send_keys cfda_extension (keys_of subagency_extension)]),
       always (sleep 1),
       click_id (fac ev) ''cfdaContains'',
       click_id (fac ev) ''btnAdd'',
       locate_id (fac ev) ''MainContent_UcSearchFilters_Panel4'',
       click_id (fac ev) ''MainContent_UcSearchFilters_btnSearch_bottom'',
       always (sleep 1),
       click_id (fac ev) ''chkAgree'',
       always (sleep 1),
       click_id (fac ev) ''btnIAgree'',
       always (sleep 1)]"

record http_response =
  content :: string
  content_type :: string

definition download_completed_response :: http_response where
  "download_completed_response =
     \<lparr>content = ''Your download has completed.'', content_type = ''text/plain''\<rparr>"

text \<open>
  The function up to the wait. A missing or non-string \<^verbatim>\<open>agency_prefix\<close> and a missing
  \<^verbatim>\<open>subagency_extension\<close> get their defaults. No \<^verbatim>\<open>try\<close> encloses the steps, so an
  exception of any step leaves the function at once, with the browser as it then is. The
  value is the number of the last result page.
\<close>

definition search_and_download ::
    "env \<Rightarrow> pyval \<Rightarrow> pyval \<Rightarrow> ((error + nat) \<times> driver) option" where
  "search_and_download ev agency_prefix subagency_extension =
     (let agency_prefix = (case agency_prefix of PyStr s \<Rightarrow> s | _ \<Rightarrow> DEPT_OF_TRANSPORTATION_PREFIX);
          subagency_extension = (case subagency_extension of
                                   PyNone \<Rightarrow> PyStr FTA_SUBAGENCY_CODE
                                 | v \<Rightarrow> v);
          d = check_for_chromedriver ev no_browser
      in case webdriver_Chrome ev d of
           (Inl e, d) \<Rightarrow> Some (Inl e, d)
         | (Inr _, d) \<Rightarrow>
             (case search_fac ev agency_prefix subagency_extension d of
                (Inl e, d) \<Rightarrow> Some (Inl e, d)
              | (Inr _, d) \<Rightarrow> download_result_pages (fac ev) d))"

text \<open>
  The whole function: the wait for the downloads, then
  \<^verbatim>\<open>
  if paths:
      driver.quit()
  return HttpResponse("Your download has completed.", content_type="text/plain")
  \<close>
\<close>

definition download_files_from_fac ::
    "env \<Rightarrow> pyval \<Rightarrow> pyval \<Rightarrow> ((error + http_response) \<times> driver) option" where
  "download_files_from_fac ev agency_prefix subagency_extension =
     (case search_and_download ev agency_prefix subagency_extension of
        None \<Rightarrow> None
      | Some (Inl e, d) \<Rightarrow> Some (Inl e, d)
      | Some (Inr _, d) \<Rightarrow>
          (case WebDriverWait_until (fac ev) 500 d of
             (Inl e, d) \<Rightarrow> Some (Inl e, d)
           | (Inr paths, d) \<Rightarrow>
               Some (Inr download_completed_response, if paths \<noteq> [] then quit d else d)))"

section \<open>distiller/views.py: the agency highlights\<close>

text \<open>
  The names that views.py binds at module level to a string, with \<open>base_dir\<close> for
  \<^verbatim>\<open>settings.BASE_DIR\<close>. A name that a function reads and does not assign is looked up
  here; a name that is bound nowhere raises \<^verbatim>\<open>NameError\<close>.
\<close>

definition DIRECTORY_NAME :: string where
  "DIRECTORY_NAME = ''single_audit_data_dump''"

definition module_strings :: "string \<Rightarrow> (string \<times> string) list" where
  "module_strings base_dir =
     [(''DIRECTORY_NAME'', DIRECTORY_NAME),
      (''FILES_DIRECTORY'', base_dir @ ''/distiller/'' @ DIRECTORY_NAME),
      (''CHROME_DRIVER_LOCATION'', base_dir @ ''/distiller/chromedriver''),
      (''FAC_URL'', FAC_URL),
      (''DEPT_OF_TRANSPORTATION_PREFIX'', DEPT_OF_TRANSPORTATION_PREFIX),
      (''FTA_SUBAGENCY_CODE'', FTA_SUBAGENCY_CODE)]"

definition load_global :: "string \<Rightarrow> string \<Rightarrow> error + string" where
  "load_global base_dir name =
     (case map_of (module_strings base_dir) name of
        None \<Rightarrow> Inl NameError
      | Some v \<Rightarrow> Inr v)"

text \<open>A row of the general table, with the two columns that the code reads.\<close>

record row =
  COGAGENCY :: string
  CYFINDINGS :: string

text \<open>
  \<^verbatim>\<open>
  def filter_general_table_by_agency(agency_prefix, filename="gen18.txt"):
      actual_filename = files_directory + '/' + filename
      df = pd.read_csv(actual_filename, low_memory=False, encoding='latin-1')
      agency_df = df.loc[df['COGAGENCY'] == agency_prefix]
      return agency_df
  \<close>
  \<open>read_csv\<close> stands for the files on disk.
\<close>

definition filter_general_table_by_agency ::
    "string \<Rightarrow> (string \<Rightarrow> row list) \<Rightarrow> string \<Rightarrow> string \<Rightarrow> error + row list" where
  "filter_general_table_by_agency base_dir read_csv agency_prefix filename =
     (case load_global base_dir ''files_directory'' of
        Inl e \<Rightarrow> Inl e
      | Inr files_directory \<Rightarrow>
          (let actual_filename = files_directory @ ''/'' @ filename;
               df = read_csv actual_filename;
               agency_df = filter (\<lambda>r. COGAGENCY r = agency_prefix) df
           in Inr agency_df))"

definition get_findings :: "row list \<Rightarrow> row list" where
  "get_findings agency_df = filter (\<lambda>r. CYFINDINGS r = ''Y'') agency_df"

definition get_number_of_findings :: "row list \<Rightarrow> nat" where
  "get_number_of_findings agency_df = length (get_findings agency_df)"

record highlights =
  agency_prefix_of :: string
  agency_name :: string
  filename_of :: string
  cognizant_sum :: nat
  findings :: nat

text \<open>
  \<^verbatim>\<open>
  def derive_agency_highlights(agency_prefix, filename='gen18.txt'):
      agency_df = filter_general_table_by_agency(agency_prefix)
      highlights = {... 'results': {'cognizant_sum': len(agency_df.index),
                                    'findings': __get_number_of_findings(agency_df)}}
      return highlights
  \<close>
  \<^verbatim>\<open>__get_agency_name_from_prefix\<close> is defined in forms.py; it is the parameter
  \<open>name_from_prefix\<close>.
\<close>

definition derive_agency_highlights ::
    "string \<Rightarrow> (string \<Rightarrow> row list) \<Rightarrow> (string \<Rightarrow> error + string) \<Rightarrow> string \<Rightarrow> string
       \<Rightarrow> error + highlights" where
  "derive_agency_highlights base_dir read_csv name_from_prefix agency_prefix filename =
     (case filter_general_table_by_agency base_dir read_csv agency_prefix ''gen18.txt'' of
        Inl e \<Rightarrow> Inl e
      | Inr agency_df \<Rightarrow>
          (case name_from_prefix agency_prefix of
             Inl e \<Rightarrow> Inl e
           | Inr name \<Rightarrow>
               Inr \<lparr>agency_prefix_of = agency_prefix, agency_name = name, filename_of = filename,
                    cognizant_sum = length agency_df,
                    findings = get_number_of_findings agency_df\<rparr>))"

section \<open>A simulated portal\<close>

text \<open>
  A portal with a search page (document 1), an agreement page (2), the browser's download
  page (3) and \<open>K\<close> result pages (documents 11 to 10 + K), used to run the workflow on
  concrete inputs. Result page \<open>n\<close> has the elements \<open>links n\<close>; when there are
  several pages, its pager row links every other page by its number.
\<close>

definition search_form_ids :: "string list" where
  "search_form_ids =
     [''ui-id-1'',
      ''MainContent_UcSearchFilters_DateProcessedControl_FromDate'',
      ''MainContent_UcSearchFilters_DateProcessedControl_ToDate'',
      ''ui-id-5'',
      ''MainContent_UcSearchFilters_CDFASelectionControl_SelectionControlTable'',
      ''cfdaPrefix'', ''cfdaExt'', ''cfdaContains'', ''btnAdd'',
      ''MainContent_UcSearchFilters_Panel4'',
      ''MainContent_UcSearchFilters_btnSearch_bottom'']"

definition simulated_fac ::
    "nat \<Rightarrow> (nat \<Rightarrow> string list) \<Rightarrow> (nat \<Rightarrow> download_item list) \<Rightarrow> portal" where
  "simulated_fac K links items =
     \<lparr>page_at = (\<lambda>url. if url = FAC_URL then 1 else if url = ''chrome://downloads/'' then 3 else 0),
      url_of = (\<lambda>dc. if dc = 1 then FAC_URL
                      else if dc = 3 then ''chrome://downloads/''
                      else if dc = 0 then ''data:,''
                      else ''https://harvester.census.gov/facdissem/SearchResults.aspx''),
      element_ids = (\<lambda>dc. if dc = 1 then search_form_ids
                           else if dc = 2 then [''chkAgree'', ''btnIAgree'']
                           else if 10 < dc \<and> dc \<le> 10 + K then links (dc - 10)
                           else []),
      after_click = (\<lambda>dc i. if dc = 1 \<and> i = ''MainContent_UcSearchFilters_btnSearch_bottom'' then 2
                             else if dc = 2 \<and> i = ''btnIAgree'' then 11
                             else dc),
      select_options = (\<lambda>dc i. if dc = 1 \<and> i = ''cfdaPrefix'' then [''10'', ''20'', ''93''] else []),
      pager_links = (\<lambda>dc. if 10 < dc \<and> dc \<le> 10 + K \<and> 1 < K
                           then Some (map (\<lambda>n. (str (int n), 10 + n)) (filter (\<lambda>n. n \<noteq> dc - 10) [1..<K + 1]))
                           else None),
      download_items = items\<rparr>"

text \<open>The ids of the first \<open>k\<close> download links of a category on a result page.\<close>

definition result_link_ids :: "string \<Rightarrow> nat \<Rightarrow> string list" where
  "result_link_ids name_suffix k =
     map (result_link_name name_suffix) [0..<k]"

definition completed_item :: "string \<Rightarrow> download_item" where
  "completed_item u = \<lparr>item_state = ''COMPLETE'', fileUrl = Some u, file_url = None\<rparr>"

definition in_progress_item :: download_item where
  "in_progress_item = \<lparr>item_state = ''IN_PROGRESS'', fileUrl = None, file_url = None\<rparr>"

definition never_finished :: "nat \<Rightarrow> download_item list" where
  "never_finished n = [in_progress_item]"

definition no_items :: "nat \<Rightarrow> download_item list" where
  "no_items n = []"

definition finished_at_3 :: "nat \<Rightarrow> download_item list" where
  "finished_at_3 n = (if n < 3 then [in_progress_item] else [completed_item ''file:///tmp/20-1.xls''])"

definition no_links :: "nat \<Rightarrow> string list" where
  "no_links n = []"

text \<open>A call on 2019-03-01 in a process that imported views.py on 2019-01-01, against a
  portal with one result page without download links.\<close>

definition demo_env :: "(nat \<Rightarrow> download_item list) \<Rightarrow> env" where
  "demo_env items =
     \<lparr>chromedriver_present = True,
      module_loaded_on = \<lparr>year = 2019, month = 1, day = 1\<rparr>,
      today = \<lparr>year = 2019, month = 3, day = 1\<rparr>,
      fac = simulated_fac 1 no_links items\<rparr>"

text \<open>A result page with slots 0 to 4 of both categories, one with slots 1 to 5 only, a
  browser that shows the first result page, a browser just started, portals whose only
  download completes at the fourth poll or that never list a download, and a portal with
  three result pages.\<close>

definition five_of_25 :: portal where
  "five_of_25 = simulated_fac 1 (\<lambda>n. result_link_ids ''Form'' 5 @ result_link_ids ''Audit'' 5) no_items"

definition first_slot_missing :: portal where
  "first_slot_missing =
     simulated_fac 1 (\<lambda>n. tl (result_link_ids ''Form'' 6) @ tl (result_link_ids ''Audit'' 6)) no_items"

definition on_results_page :: driver where
  "on_results_page = \<lparr>session_open = True, current = 11, clock = 0, scripts_run = 0, events = []\<rparr>"

definition started_browser :: driver where
  "started_browser = no_browser\<lparr>session_open := True\<rparr>"

definition finishing_at_3 :: portal where
  "finishing_at_3 = simulated_fac 1 no_links finished_at_3"

definition without_downloads :: portal where
  "without_downloads = simulated_fac 1 no_links no_items"

definition three_pages :: portal where
  "three_pages = simulated_fac 3 (\<lambda>n. result_link_ids ''Form'' 1) no_items"

definition result_document :: "nat \<Rightarrow> doc" where
  "result_document n = 10 + n"


section \<open>Notions used in the statements\<close>

text \<open>What the page script sees at its \<open>n\<close>-th run: whether every listed item is
  complete, and the paths it would return.\<close>

definition all_complete :: "portal \<Rightarrow> nat \<Rightarrow> bool" where
  "all_complete p n = list_all (\<lambda>e. item_state e = ''COMPLETE'') (download_items p n)"

definition completed_paths :: "portal \<Rightarrow> nat \<Rightarrow> string option list" where
  "completed_paths p n = map (\<lambda>e. js_or (fileUrl e) (file_url e)) (download_items p n)"

text \<open>A click on a download link, as opposed to a link of the pager.\<close>

fun is_click :: "event \<Rightarrow> bool" where
  "is_click (Click dc i) = True"
| "is_click e = False"

text \<open>Clicks on the document do not load another one.\<close>

definition stays :: "portal \<Rightarrow> doc \<Rightarrow> bool" where
  "stays p dc = (\<forall>i. after_click p dc i = dc)"

text \<open>A later state of the same browser session: the session is as open as before, and
  the events so far are a prefix of the later ones.\<close>

definition extends :: "driver \<Rightarrow> driver \<Rightarrow> bool" where
  "extends d d' = (session_open d' = session_open d \<and> prefix (events d) (events d'))"

definition keeps :: "'a action \<Rightarrow> bool" where
  "keeps a = (\<forall>d. extends d (snd (a d)))"

text \<open>The events that choose an option of a select box, and a list of events without
  one.\<close>

fun is_select :: "event \<Rightarrow> bool" where
  "is_select (SelectByValue dc i v) = True"
| "is_select e = False"

definition quiet :: "event list \<Rightarrow> bool" where
  "quiet new = list_all (\<lambda>e. \<not> is_select e) new"

text \<open>A step that does not read the events so far: started with other events, it
  returns the same value and the same browser and appends the same new events. A step
  is \<open>blind\<close> when this holds from every state and its new events choose no option.\<close>

definition appends :: "(driver \<Rightarrow> 'r \<times> driver) \<Rightarrow> driver \<Rightarrow> event list \<Rightarrow> bool" where
  "appends a d new = (\<forall>es. a (d\<lparr>events := es\<rparr>) = (fst (a d), (snd (a d))\<lparr>events := es @ new\<rparr>))"

definition blind :: "(driver \<Rightarrow> 'r \<times> driver) \<Rightarrow> bool" where
  "blind a = (\<forall>d. \<exists>new. quiet new \<and> appends a d new)"

definition blind_update :: "(driver \<Rightarrow> driver) \<Rightarrow> bool" where
  "blind_update f = (\<forall>d. \<exists>new. quiet new \<and> (\<forall>es. f (d\<lparr>events := es\<rparr>) = (f d)\<lparr>events := es @ new\<rparr>))"


section \<open>Decimal representations\<close>

lemma str_nat_nonempty: "0 < length (str_nat n)"
  by (subst str_nat.simps) simp

lemma length_str_nat_le:
  "0 < k \<Longrightarrow> (length (str_nat n) \<le> k) = (n < 10 ^ k)"
proof (induction n arbitrary: k rule: str_nat.induct)
  case (1 n)
  show ?case
  proof (cases "n < 10")
    case True
    have "(10::nat) ^ 1 \<le> 10 ^ k"
      using "1.prems" by (intro power_increasing) simp_all
    with True have "n < 10 ^ k" by simp
    moreover from True "1.prems" have "length (str_nat n) \<le> k"
      by (subst str_nat.simps) simp
    ultimately show ?thesis by simp
  next
    case False
    then have len: "length (str_nat n) = Suc (length (str_nat (n div 10)))"
      by (subst str_nat.simps) simp
    show ?thesis
    proof (cases k)
      case 0
      with "1.prems" show ?thesis by simp
    next
      case (Suc j)
      show ?thesis
      proof (cases "j = 0")
        case True
        with Suc False len str_nat_nonempty [of "n div 10"] show ?thesis by simp
      next
        case jpos: False
        then have "(length (str_nat (n div 10)) \<le> j) = (n div 10 < 10 ^ j)"
          using "1.IH" [OF False, of j] by simp
        moreover have "(n div 10 < 10 ^ j) = (n < 10 ^ Suc j)"
          by (simp add: less_mult_imp_div_less div_less_iff_less_mult mult.commute)
        ultimately show ?thesis using Suc len by simp
      qed
    qed
  qed
qed

lemma length_str_nat_5: "(length (str_nat n) = 5) = (10000 \<le> n \<and> n \<le> 99999)"
proof -
  have a: "(length (str_nat n) \<le> 5) = (n < 10 ^ 5)"
    by (rule length_str_nat_le) simp
  have b: "(length (str_nat n) \<le> 4) = (n < 10 ^ 4)"
    by (rule length_str_nat_le) simp
  from a b show ?thesis by (simp del: One_nat_def) linarith
qed

lemma length_str_nat_4: "(length (str_nat n) = 4) = (1000 \<le> n \<and> n \<le> 9999)"
proof -
  have a: "(length (str_nat n) \<le> 4) = (n < 10 ^ 4)"
    by (rule length_str_nat_le) simp
  have b: "(length (str_nat n) \<le> 3) = (n < 10 ^ 3)"
    by (rule length_str_nat_le) simp
  from a b show ?thesis by (simp del: One_nat_def) linarith
qed

lemma length_str_5:
  "(length (str i) = 5) = ((10000 \<le> i \<and> i \<le> 99999) \<or> (- 9999 \<le> i \<and> i \<le> - 1000))"
proof (cases "i < 0")
  case True
  then have "(length (str i) = 5) = (length (str_nat (nat (- i))) = 4)"
    by (simp add: str_def)
  also have "\<dots> = (1000 \<le> nat (- i) \<and> nat (- i) \<le> 9999)"
    by (rule length_str_nat_4)
  finally show ?thesis using True by auto
next
  case False
  then have "(length (str i) = 5) = (length (str_nat (nat i)) = 5)"
    by (simp add: str_def)
  also have "\<dots> = (10000 \<le> nat i \<and> nat i \<le> 99999)"
    by (rule length_str_nat_5)
  finally show ?thesis using False by auto
qed

section \<open>The calendar: ordinals and dates determine each other\<close>

lemma month_part:
  fixes k :: int
  assumes k: "0 \<le> k" "k \<le> 364 + (if lp then 1 else 0)"
    and mo: "mo = (k + 50) div 32"
    and pre: "pre = DAYS_BEFORE_MONTH ! nat mo + (if mo > 2 \<and> lp then 1 else 0)"
    and M: "M = (if pre > k then mo - 1 else mo)"
    and P: "P = (if pre > k then pre - (DAYS_IN_MONTH ! nat (mo - 1) + (if mo - 1 = 2 \<and> lp then 1 else 0)) else pre)"
  shows "1 \<le> M \<and> M \<le> 12
     \<and> P = DAYS_BEFORE_MONTH ! nat M + (if M > 2 \<and> lp then 1 else 0)
     \<and> P \<le> k \<and> k - P < (if M = 2 \<and> lp then 29 else DAYS_IN_MONTH ! nat M)"
proof -
  have "1 \<le> mo \<and> mo \<le> 12" using k mo by (auto split: if_splits)
  then consider "mo = 1" | "mo = 2" | "mo = 3" | "mo = 4" | "mo = 5" | "mo = 6"
    | "mo = 7" | "mo = 8" | "mo = 9" | "mo = 10" | "mo = 11" | "mo = 12"
    by atomize_elim presburger
  then show ?thesis
  proof cases
    case 1 with k mo pre M P show ?thesis by (simp add: DAYS_BEFORE_MONTH_def DAYS_IN_MONTH_def)
  next
    case 2 with k mo pre M P show ?thesis by (simp add: DAYS_BEFORE_MONTH_def DAYS_IN_MONTH_def) arith
  next
    case 3 with k mo pre M P show ?thesis by (simp add: DAYS_BEFORE_MONTH_def DAYS_IN_MONTH_def) arith
  next
    case 4 with k mo pre M P show ?thesis by (simp add: DAYS_BEFORE_MONTH_def DAYS_IN_MONTH_def) arith
  next
    case 5 with k mo pre M P show ?thesis by (simp add: DAYS_BEFORE_MONTH_def DAYS_IN_MONTH_def) arith
  next
    case 6 with k mo pre M P show ?thesis by (simp add: DAYS_BEFORE_MONTH_def DAYS_IN_MONTH_def) arith
  next
    case 7 with k mo pre M P show ?thesis by (simp add: DAYS_BEFORE_MONTH_def DAYS_IN_MONTH_def) arith
  next
    case 8 with k mo pre M P show ?thesis by (simp add: DAYS_BEFORE_MONTH_def DAYS_IN_MONTH_def) arith
  next
    case 9 with k mo pre M P show ?thesis by (simp add: DAYS_BEFORE_MONTH_def DAYS_IN_MONTH_def) arith
  next
    case 10 with k mo pre M P show ?thesis by (simp add: DAYS_BEFORE_MONTH_def DAYS_IN_MONTH_def) arith
  next
    case 11 with k mo pre M P show ?thesis by (simp add: DAYS_BEFORE_MONTH_def DAYS_IN_MONTH_def) arith
  next
    case 12 with k mo pre M P show ?thesis by (simp add: DAYS_BEFORE_MONTH_def DAYS_IN_MONTH_def) arith
  qed
qed


lemma divmod_decomp:
  fixes q a s :: int
  assumes "0 \<le> s" "s < q"
  shows "(q * a + s) div q = a" and "(q * a + s) mod q = s"
  using assms by (simp_all add: div_pos_pos_trivial)

lemma ord2ymd_digits:
  assumes n: "n - 1 = 146097 * a + 36524 * b + 1461 * c + 365 * f + k"
    and r1: "0 \<le> 36524 * b + 1461 * c + 365 * f + k" "36524 * b + 1461 * c + 365 * f + k < 146097"
    and r2: "0 \<le> 1461 * c + 365 * f + k" "1461 * c + 365 * f + k < 36524"
    and r3: "0 \<le> 365 * f + k" "365 * f + k < 1461"
    and r4: "0 \<le> k" "k < 365"
  shows "(n - 1) div DI400Y = a"
    and "((n - 1) mod DI400Y) div DI100Y = b"
    and "(((n - 1) mod DI400Y) mod DI100Y) div DI4Y = c"
    and "((((n - 1) mod DI400Y) mod DI100Y) mod DI4Y) div 365 = f"
    and "((((n - 1) mod DI400Y) mod DI100Y) mod DI4Y) mod 365 = k"
proof -
  have e1: "n - 1 = 146097 * a + (36524 * b + 1461 * c + 365 * f + k)" using n by simp
  show d1: "(n - 1) div DI400Y = a"
    unfolding e1 DI400Y_def by (rule divmod_decomp(1) [OF r1])
  have m1: "(n - 1) mod DI400Y = 36524 * b + (1461 * c + 365 * f + k)"
    unfolding e1 DI400Y_def using divmod_decomp(2) [OF r1] by simp
  show "((n - 1) mod DI400Y) div DI100Y = b"
    unfolding m1 DI100Y_def by (rule divmod_decomp(1) [OF r2])
  have m2: "((n - 1) mod DI400Y) mod DI100Y = 1461 * c + (365 * f + k)"
    unfolding m1 DI100Y_def using divmod_decomp(2) [OF r2] by simp
  show "(((n - 1) mod DI400Y) mod DI100Y) div DI4Y = c"
    unfolding m2 DI4Y_def by (rule divmod_decomp(1) [OF r3])
  have m3: "(((n - 1) mod DI400Y) mod DI100Y) mod DI4Y = 365 * f + k"
    unfolding m2 DI4Y_def using divmod_decomp(2) [OF r3] by simp
  show "((((n - 1) mod DI400Y) mod DI100Y) mod DI4Y) div 365 = f"
    unfolding m3 by (rule divmod_decomp(1) [OF r4])
  show "((((n - 1) mod DI400Y) mod DI100Y) mod DI4Y) mod 365 = k"
    unfolding m3 by (rule divmod_decomp(2) [OF r4])
qed

lemma ord2ymd_unfold:
  assumes n: "n - 1 = 146097 * a + 36524 * b + 1461 * c + 365 * f + k"
    and r1: "0 \<le> 36524 * b + 1461 * c + 365 * f + k" "36524 * b + 1461 * c + 365 * f + k < 146097"
    and r2: "0 \<le> 1461 * c + 365 * f + k" "1461 * c + 365 * f + k < 36524"
    and r3: "0 \<le> 365 * f + k" "365 * f + k < 1461"
    and r4: "0 \<le> k" "k < 365"
  shows "ord2ymd n =
    (if f = 4 \<or> b = 4 then \<lparr>year = 400 * a + 100 * b + 4 * c + f, month = 12, day = 31\<rparr>
     else month_day (400 * a + 100 * b + 4 * c + f + 1) (f = 3 \<and> (c \<noteq> 24 \<or> b = 3)) k)"
  unfolding ord2ymd_def Let_def ord2ymd_digits [OF n r1 r2 r3 r4]
  by (simp add: algebra_simps)


lemma days_before_year_digits:
  assumes b: "0 \<le> b" "b \<le> 3" and c: "0 \<le> c" "c \<le> 24" and f: "0 \<le> f" "f \<le> 3"
  shows "days_before_year (400 * a + 100 * b + 4 * c + f + 1)
       = 146097 * a + 36524 * b + 1461 * c + 365 * f"
proof -
  let ?Y = "400 * a + 100 * b + 4 * c + f"
  have "?Y = 4 * (100 * a + 25 * b + c) + f" by simp
  then have d4: "?Y div 4 = 100 * a + 25 * b + c"
    using divmod_decomp(1) [of f 4 "100 * a + 25 * b + c"] f by simp
  have "?Y = 100 * (4 * a + b) + (4 * c + f)" by simp
  then have d100: "?Y div 100 = 4 * a + b"
    using divmod_decomp(1) [of "4 * c + f" 100 "4 * a + b"] c f by simp
  have "?Y = 400 * a + (100 * b + 4 * c + f)" by simp
  then have d400: "?Y div 400 = a"
    using divmod_decomp(1) [of "100 * b + 4 * c + f" 400 a] b c f by simp
  show ?thesis
    unfolding days_before_year_def Let_def using d4 d100 d400 by simp
qed

lemma is_leap_digits:
  assumes b: "0 \<le> b" "b \<le> 3" and c: "0 \<le> c" "c \<le> 24" and f: "0 \<le> f" "f \<le> 3"
  shows "is_leap (400 * a + 100 * b + 4 * c + f + 1) = (f = 3 \<and> (c \<noteq> 24 \<or> b = 3))"
proof -
  let ?y = "400 * a + 100 * b + 4 * c + f + 1"
  have m4: "(?y mod 4 = 0) = (f = 3)"
  proof (cases "f = 3")
    case True
    then have "?y = 4 * (100 * a + 25 * b + c + 1)" by simp
    then show ?thesis using True by simp
  next
    case False
    have e: "?y = 4 * (100 * a + 25 * b + c) + (f + 1)" by simp
    have "?y mod 4 = f + 1"
      by (subst e, rule divmod_decomp(2)) (use f False in linarith)+
    then show ?thesis using f False by simp
  qed
  have m100: "(?y mod 100 = 0) = (f = 3 \<and> c = 24)"
  proof (cases "f = 3 \<and> c = 24")
    case True
    then have "?y = 100 * (4 * a + b + 1)" by simp
    then show ?thesis using True by simp
  next
    case False
    have e: "?y = 100 * (4 * a + b) + (4 * c + f + 1)" by simp
    have "?y mod 100 = 4 * c + f + 1"
      by (subst e, rule divmod_decomp(2)) (use c f False in linarith)+
    then show ?thesis using c f False by simp
  qed
  have m400: "(?y mod 400 = 0) = (f = 3 \<and> c = 24 \<and> b = 3)"
  proof (cases "f = 3 \<and> c = 24 \<and> b = 3")
    case True
    then have "?y = 400 * (a + 1)" by simp
    then show ?thesis using True by simp
  next
    case False
    have e: "?y = 400 * a + (100 * b + 4 * c + f + 1)" by simp
    have "?y mod 400 = 100 * b + 4 * c + f + 1"
      by (subst e, rule divmod_decomp(2)) (use b c f False in linarith)+
    then show ?thesis using b c f False by simp
  qed
  show ?thesis unfolding is_leap_def m4 m100 m400 by auto
qed


lemma days_before_year_eq:
  assumes "yr = 400 * a + 100 * b + 4 * c + f + 1"
    and "0 \<le> b" "b \<le> 3" "0 \<le> c" "c \<le> 24" "0 \<le> f" "f \<le> 3"
  shows "days_before_year yr = 146097 * a + 36524 * b + 1461 * c + 365 * f"
  unfolding assms(1) by (rule days_before_year_digits [OF assms(2-)])

lemma is_leap_eq:
  assumes "yr = 400 * a + 100 * b + 4 * c + f + 1"
    and "0 \<le> b" "b \<le> 3" "0 \<le> c" "c \<le> 24" "0 \<le> f" "f \<le> 3"
  shows "is_leap yr = (f = 3 \<and> (c \<noteq> 24 \<or> b = 3))"
  unfolding assms(1) by (rule is_leap_digits [OF assms(2-)])

lemma month_day_ok:
  assumes k: "0 \<le> k" "k \<le> 364 + (if lp then 1 else 0)" and lp: "lp = is_leap yr"
  shows "year (month_day yr lp k) = yr"
    and "1 \<le> month (month_day yr lp k)" and "month (month_day yr lp k) \<le> 12"
    and "1 \<le> day (month_day yr lp k)"
    and "day (month_day yr lp k) \<le> days_in_month yr (month (month_day yr lp k))"
    and "days_before_month yr (month (month_day yr lp k)) + day (month_day yr lp k) = k + 1"
proof -
  define mo where "mo = (k + 50) div 32"
  define pre where "pre = DAYS_BEFORE_MONTH ! nat mo + (if mo > 2 \<and> lp then 1 else 0)"
  define M where "M = (if pre > k then mo - 1 else mo)"
  define P where "P = (if pre > k then pre - (DAYS_IN_MONTH ! nat (mo - 1) + (if mo - 1 = 2 \<and> lp then 1 else 0)) else pre)"
  have md: "month_day yr lp k = \<lparr>year = yr, month = M, day = k - P + 1\<rparr>"
    by (simp add: month_day_def Let_def mo_def pre_def M_def P_def)
  note mp = month_part [OF k mo_def pre_def M_def P_def]
  show "year (month_day yr lp k) = yr" by (simp add: md)
  show "1 \<le> month (month_day yr lp k)" "month (month_day yr lp k) \<le> 12"
    using mp by (simp_all add: md)
  show "1 \<le> day (month_day yr lp k)" using mp by (simp add: md)
  show "day (month_day yr lp k) \<le> days_in_month yr (month (month_day yr lp k))"
    using mp by (simp add: md days_in_month_def lp [symmetric])
  show "days_before_month yr (month (month_day yr lp k)) + day (month_day yr lp k) = k + 1"
    using mp by (simp add: md days_before_month_def lp [symmetric])
qed

lemma ord2ymd_ok:
  assumes n: "1 \<le> n" "n \<le> MAXORDINAL"
  shows "valid_date (ord2ymd n) \<and> toordinal (ord2ymd n) = n"
proof -
  define a where "a = (n - 1) div 146097"
  define r where "r = (n - 1) mod 146097"
  define b where "b = r div 36524"
  define r1 where "r1 = r mod 36524"
  define c where "c = r1 div 1461"
  define r2 where "r2 = r1 mod 1461"
  define f where "f = r2 div 365"
  define k where "k = r2 mod 365"
  have e0: "n - 1 = 146097 * a + r" by (simp add: a_def r_def)
  have e1: "r = 36524 * b + r1" by (simp add: b_def r1_def)
  have e2: "r1 = 1461 * c + r2" by (simp add: c_def r2_def)
  have e3: "r2 = 365 * f + k" by (simp add: f_def k_def)
  have rr: "0 \<le> r" "r < 146097" by (simp_all add: r_def)
  have rr1: "0 \<le> r1" "r1 < 36524" by (simp_all add: r1_def)
  have rr2: "0 \<le> r2" "r2 < 1461" by (simp_all add: r2_def)
  have rk: "0 \<le> k" "k < 365" by (simp_all add: k_def)
  have a0: "0 \<le> a" using n by (simp add: a_def pos_imp_zdiv_nonneg_iff)
  have b0: "0 \<le> b" using rr by (simp add: b_def pos_imp_zdiv_nonneg_iff)
  have c0: "0 \<le> c" using rr1 by (simp add: c_def pos_imp_zdiv_nonneg_iff)
  have f0: "0 \<le> f" using rr2 by (simp add: f_def pos_imp_zdiv_nonneg_iff)
  have b4: "b \<le> 4" using rr e1 rr1 by linarith
  have c24: "c \<le> 24" using rr1 e2 rr2 by linarith
  have f4: "f \<le> 4" using rr2 e3 rk by linarith
  have nmax: "n - 1 \<le> 3652058" using n by (simp add: MAXORDINAL_def)
  have a24: "a \<le> 24" using nmax e0 rr by linarith
  have eq: "n - 1 = 146097 * a + 36524 * b + 1461 * c + 365 * f + k"
    using e0 e1 e2 e3 by simp
  have q1: "0 \<le> 36524 * b + 1461 * c + 365 * f + k" "36524 * b + 1461 * c + 365 * f + k < 146097"
    using rr e1 e2 e3 by simp_all
  have q2: "0 \<le> 1461 * c + 365 * f + k" "1461 * c + 365 * f + k < 36524"
    using rr1 e2 e3 by simp_all
  have q3: "0 \<le> 365 * f + k" "365 * f + k < 1461"
    using rr2 e3 by simp_all
  note unf = ord2ymd_unfold [OF eq q1 q2 q3 rk]
  show ?thesis
  proof (cases "b = 4")
    case True
    then have z: "c = 0" "f = 0" "k = 0" using q1 c0 f0 rk by linarith+
    have a23: "a \<le> 23" using nmax eq True z by linarith
    have res: "ord2ymd n = \<lparr>year = 400 * a + 400, month = 12, day = 31\<rparr>"
      using unf True z by simp
    have lp: "is_leap (400 * a + 400)"
      using is_leap_eq [of "400 * a + 400" a 3 24 3] by simp
    have dby: "days_before_year (400 * a + 400) = 146097 * a + 145731"
      using days_before_year_eq [of "400 * a + 400" a 3 24 3] by simp
    show ?thesis
      unfolding res using a0 a23 lp dby eq True z
      by (simp add: valid_date_def toordinal_def ymd2ord_def days_in_month_def
          days_before_month_def DAYS_IN_MONTH_def DAYS_BEFORE_MONTH_def MINYEAR_def MAXYEAR_def)
  next
    case b3: False
    then have b3': "b \<le> 3" using b4 by simp
    show ?thesis
    proof (cases "f = 4")
      case True
      then have k0: "k = 0" using q3 rk by linarith
      have c23: "c \<le> 23" using q2 True k0 by linarith
      have res: "ord2ymd n = \<lparr>year = 400 * a + 100 * b + 4 * c + 4, month = 12, day = 31\<rparr>"
        using unf True by simp
      have y4: "400 * a + 100 * b + 4 * c + 4 = 400 * a + 100 * b + 4 * c + 3 + 1" by simp
      have lp: "is_leap (400 * a + 100 * b + 4 * c + 4)"
        using is_leap_eq [OF y4 b0 b3' c0 c24] c23 by simp
      have dby: "days_before_year (400 * a + 100 * b + 4 * c + 4)
                  = 146097 * a + 36524 * b + 1461 * c + 1095"
        using days_before_year_eq [OF y4 b0 b3' c0 c24] by simp
      show ?thesis
        unfolding res using a0 a24 b0 b3' c0 c23 lp dby eq True k0
        by (simp add: valid_date_def toordinal_def ymd2ord_def days_in_month_def
            days_before_month_def DAYS_IN_MONTH_def DAYS_BEFORE_MONTH_def MINYEAR_def MAXYEAR_def)
    next
      case False
      then have f3: "f \<le> 3" using f4 by simp
      let ?yr = "400 * a + 100 * b + 4 * c + f + 1"
      let ?lp = "f = 3 \<and> (c \<noteq> 24 \<or> b = 3)"
      have res: "ord2ymd n = month_day ?yr ?lp k"
        using unf False b3 by simp
      have lp: "?lp = is_leap ?yr"
        by (rule is_leap_digits [OF b0 b3' c0 c24 f0 f3, symmetric])
      have dby: "days_before_year ?yr = 146097 * a + 36524 * b + 1461 * c + 365 * f"
        by (rule days_before_year_digits [OF b0 b3' c0 c24 f0 f3])
      have kk: "k \<le> 364 + (if ?lp then 1 else 0)" using rk by simp
      note md = month_day_ok [OF rk(1) kk lp]
      have ylo: "1 \<le> ?yr" using a0 b0 c0 f0 by linarith
      have yhi: "?yr \<le> 9999"
      proof (rule ccontr)
        assume "\<not> ?yr \<le> 9999"
        then have big: "9999 \<le> 400 * a + 100 * b + 4 * c + f" by simp
        have "a = 24" using big a24 b3' c24 f3 by linarith
        moreover have "b = 3" using big a24 b3' c24 f3 by linarith
        moreover have "c = 24" using big a24 b3' c24 f3 by linarith
        moreover have "f = 3" using big a24 b3' c24 f3 by linarith
        ultimately show False using nmax eq rk by simp
      qed
      show ?thesis
        unfolding res using md ylo yhi dby eq
        by (simp add: valid_date_def toordinal_def ymd2ord_def MINYEAR_def MAXYEAR_def)
    qed
  qed
qed


lemma month_cases:
  fixes m :: int
  assumes "1 \<le> m" "m \<le> 12"
  obtains "m = 1" | "m = 2" | "m = 3" | "m = 4" | "m = 5" | "m = 6"
    | "m = 7" | "m = 8" | "m = 9" | "m = 10" | "m = 11" | "m = 12"
  using assms by atomize_elim presburger

lemma days_before_month_next:
  assumes "1 \<le> m" "m \<le> 11"
  shows "days_before_month yr (m + 1) = days_before_month yr m + days_in_month yr m"
proof -
  from assms have "1 \<le> m" "m \<le> 12" by simp_all
  then show ?thesis
    using assms(2)
    by (cases m rule: month_cases)
      (simp_all add: days_before_month_def days_in_month_def DAYS_BEFORE_MONTH_def DAYS_IN_MONTH_def)
qed

lemma days_in_month_pos:
  assumes "1 \<le> m" "m \<le> 12"
  shows "0 < days_in_month yr m"
  using assms
  by (cases m rule: month_cases) (simp_all add: days_in_month_def DAYS_IN_MONTH_def)

lemma days_before_month_mono:
  assumes "1 \<le> M" "M \<le> m" "m \<le> 12"
  shows "days_before_month yr M \<le> days_before_month yr m"
proof -
  have "m \<le> 12 \<longrightarrow> days_before_month yr M \<le> days_before_month yr m"
    using assms(2)
  proof (induction m rule: int_ge_induct)
    case base
    show ?case by simp
  next
    case (step i)
    show ?case
    proof
      assume i: "i + 1 \<le> 12"
      then have "days_before_month yr (i + 1) = days_before_month yr i + days_in_month yr i"
        using assms(1) step.hyps by (intro days_before_month_next) simp_all
      moreover have "0 < days_in_month yr i"
        using assms(1) step.hyps i by (intro days_in_month_pos) simp_all
      moreover have "days_before_month yr M \<le> days_before_month yr i"
        using step.IH i by simp
      ultimately show "days_before_month yr M \<le> days_before_month yr (i + 1)" by simp
    qed
  qed
  with assms(3) show ?thesis by simp
qed

lemma month_interval_less:
  assumes M: "1 \<le> M" and m: "m \<le> 12" and lt: "M < m"
  shows "days_before_month yr M + days_in_month yr M \<le> days_before_month yr m"
proof -
  have "days_before_month yr (M + 1) = days_before_month yr M + days_in_month yr M"
    using M m lt by (intro days_before_month_next) simp_all
  moreover have "days_before_month yr (M + 1) \<le> days_before_month yr m"
    using M m lt by (intro days_before_month_mono) simp_all
  ultimately show ?thesis by simp
qed

lemma month_unique:
  assumes "1 \<le> M" "M \<le> 12" "1 \<le> m" "m \<le> 12"
    and "days_before_month yr M \<le> k" "k < days_before_month yr M + days_in_month yr M"
    and "days_before_month yr m \<le> k" "k < days_before_month yr m + days_in_month yr m"
  shows "M = m"
proof (rule ccontr)
  assume "M \<noteq> m"
  then consider "M < m" | "m < M" by linarith
  then show False
  proof cases
    case 1
    from month_interval_less [OF assms(1) assms(4) 1, of yr] assms show False by linarith
  next
    case 2
    from month_interval_less [OF assms(3) assms(2) 2, of yr] assms show False by linarith
  qed
qed

lemma day_of_year_bounds:
  assumes m: "1 \<le> m" "m \<le> 12" and d: "1 \<le> d" "d \<le> days_in_month yr m"
  shows "0 \<le> days_before_month yr m + d - 1"
    and "days_before_month yr m + d - 1 \<le> 364 + (if is_leap yr then 1 else 0)"
proof -
  have "days_before_month yr 1 \<le> days_before_month yr m"
    using m by (intro days_before_month_mono) simp_all
  then show "0 \<le> days_before_month yr m + d - 1"
    using d by (simp add: days_before_month_def DAYS_BEFORE_MONTH_def)
  have "days_before_month yr m + days_in_month yr m \<le> days_before_month yr 12 + days_in_month yr 12"
  proof (cases "m = 12")
    case True then show ?thesis by simp
  next
    case False
    then have "days_before_month yr m + days_in_month yr m \<le> days_before_month yr 12"
      using m by (intro month_interval_less) simp_all
    then show ?thesis using days_in_month_pos [of 12 yr] by simp
  qed
  then show "days_before_month yr m + d - 1 \<le> 364 + (if is_leap yr then 1 else 0)"
    using d by (simp add: days_before_month_def days_in_month_def DAYS_BEFORE_MONTH_def
        DAYS_IN_MONTH_def split: if_splits)
qed

lemma month_day_inv:
  assumes m: "1 \<le> m" "m \<le> 12" and d: "1 \<le> d" "d \<le> days_in_month yr m"
    and lp: "lp = is_leap yr"
    and k: "k = days_before_month yr m + d - 1"
  shows "month_day yr lp k = \<lparr>year = yr, month = m, day = d\<rparr>"
proof -
  have k0: "0 \<le> k" and k1: "k \<le> 364 + (if lp then 1 else 0)"
    unfolding k lp by (rule day_of_year_bounds [OF m d])+
  note md = month_day_ok [OF k0 k1 lp]
  let ?D = "month_day yr lp k"
  have "month ?D = m"
  proof (rule month_unique [OF md(2) md(3) m, of yr k])
    show "days_before_month yr (month ?D) \<le> k" using md(4) md(6) by linarith
    show "k < days_before_month yr (month ?D) + days_in_month yr (month ?D)"
      using md(5) md(6) by linarith
    show "days_before_month yr m \<le> k" using d k by linarith
    show "k < days_before_month yr m + days_in_month yr m" using d k by linarith
  qed
  moreover from this have "day ?D = d" using md(6) k by simp
  ultimately show ?thesis using md(1) by (intro date.equality) simp_all
qed

lemma year_digits:
  fixes y :: int
  defines "a \<equiv> (y - 1) div 400" and "b \<equiv> ((y - 1) mod 400) div 100"
    and "c \<equiv> ((y - 1) mod 100) div 4" and "f \<equiv> (y - 1) mod 4"
  shows "y = 400 * a + 100 * b + 4 * c + f + 1"
    and "0 \<le> b" "b \<le> 3" "0 \<le> c" "c \<le> 24" "0 \<le> f" "f \<le> 3"
proof -
  define Y where "Y = y - 1"
  define r where "r = Y mod 400"
  define s where "s = Y mod 100"
  have e0: "Y = 400 * a + r" by (simp add: a_def r_def Y_def)
  have rs: "r mod 100 = s" unfolding r_def s_def by (rule mod_mod_cancel) simp
  have b': "b = r div 100" by (simp add: b_def r_def Y_def)
  have e1: "r = 100 * b + s" unfolding b' rs [symmetric] by simp
  have sf: "s mod 4 = f" unfolding s_def f_def Y_def by (rule mod_mod_cancel) simp
  have c': "c = s div 4" by (simp add: c_def s_def Y_def)
  have e2: "s = 4 * c + f" unfolding c' sf [symmetric] by simp
  have rr: "0 \<le> r" "r < 400" by (simp_all add: r_def)
  have ss: "0 \<le> s" "s < 100" by (simp_all add: s_def)
  show f: "0 \<le> f" "f \<le> 3" by (simp_all add: f_def)
  show "y = 400 * a + 100 * b + 4 * c + f + 1" using e0 e1 e2 by (simp add: Y_def)
  show "0 \<le> c" "c \<le> 24" using ss e2 f by linarith+
  show "0 \<le> b" "b \<le> 3" using rr e1 ss by linarith+
qed

lemma toordinal_ok:
  assumes v: "valid_date D"
  shows "ord2ymd (toordinal D) = D" and "1 \<le> toordinal D" and "toordinal D \<le> MAXORDINAL"
proof -
  define y m d where "y = year D" and "m = month D" and "d = day D"
  define a b c f where "a = (y - 1) div 400" and "b = ((y - 1) mod 400) div 100"
    and "c = ((y - 1) mod 100) div 4" and "f = (y - 1) mod 4"
  note yd = year_digits [of y, folded a_def b_def c_def f_def]
  have D: "D = \<lparr>year = y, month = m, day = d\<rparr>" by (simp add: y_def m_def d_def)
  from v have y: "1 \<le> y" "y \<le> 9999" and m: "1 \<le> m" "m \<le> 12"
    and d: "1 \<le> d" "d \<le> days_in_month y m"
    by (simp_all add: valid_date_def y_def m_def d_def MINYEAR_def MAXYEAR_def)
  define e where "e = days_before_month y m + d - 1"
  have e0: "0 \<le> e" and e1: "e \<le> 364 + (if is_leap y then 1 else 0)"
    unfolding e_def by (rule day_of_year_bounds [OF m d])+
  have lp: "is_leap y = (f = 3 \<and> (c \<noteq> 24 \<or> b = 3))" by (rule is_leap_eq [OF yd])
  have dby: "days_before_year y = 146097 * a + 36524 * b + 1461 * c + 365 * f"
    by (rule days_before_year_eq [OF yd])
  define n where "n = toordinal D"
  have n: "n - 1 = 146097 * a + 36524 * b + 1461 * c + 365 * f + e"
    by (simp add: n_def D toordinal_def ymd2ord_def dby e_def)
  have a0: "0 \<le> a" using y by (simp add: a_def pos_imp_zdiv_nonneg_iff)
  have a24: "a \<le> 24" using y yd by linarith
  show "1 \<le> toordinal D" using n a0 yd e0 unfolding n_def by linarith
  show "toordinal D \<le> MAXORDINAL"
  proof -
    consider "a \<le> 23" | "a = 24" "b \<le> 2" | "a = 24" "b = 3" "c \<le> 23"
      | "a = 24" "b = 3" "c = 24" using a24 yd by linarith
    then have "n - 1 \<le> 3652058"
    proof cases
      case 1 then show ?thesis using n yd e1 by (simp split: if_splits)
    next
      case 2 then show ?thesis using n yd e1 by (simp split: if_splits)
    next
      case 3 then show ?thesis using n yd e1 by (simp split: if_splits)
    next
      case 4
      then have "f \<le> 2" using y yd by linarith
      then show ?thesis using 4 n yd e1 lp by (simp split: if_splits)
    qed
    then show ?thesis by (simp add: n_def MAXORDINAL_def)
  qed
  show "ord2ymd (toordinal D) = D"
  proof (cases "e = 365")
    case True
    with e1 have leap: "is_leap y" by (simp split: if_splits)
    then have f3: "f = 3" and cb: "c \<noteq> 24 \<or> b = 3" using lp by simp_all
    have "m = 12"
    proof (rule ccontr)
      assume "m \<noteq> 12"
      then have "days_before_month y m + days_in_month y m \<le> days_before_month y 12"
        using m by (intro month_interval_less) simp_all
      then show False using True d leap
        by (simp add: e_def days_before_month_def DAYS_BEFORE_MONTH_def)
    qed
    then have md: "m = 12" "d = 31" using True d leap
      by (simp_all add: e_def days_before_month_def days_in_month_def DAYS_BEFORE_MONTH_def
          DAYS_IN_MONTH_def)
    show ?thesis
    proof (cases "c = 24")
      case c: True
      then have b3: "b = 3" using cb by simp
      have n': "n - 1 = 146097 * a + 36524 * 4 + 1461 * 0 + 365 * 0 + 0"
        using n b3 c f3 True by simp
      have "ord2ymd n = \<lparr>year = 400 * a + 100 * 4 + 4 * 0 + 0, month = 12, day = 31\<rparr>"
        by (subst ord2ymd_unfold [OF n']) simp_all
      moreover have "y = 400 * a + 100 * 4 + 4 * 0 + 0" using yd(1) b3 c f3 by simp
      ultimately show ?thesis unfolding n_def D md by simp
    next
      case c: False
      then have c23: "c \<le> 23" using yd by simp
      have n': "n - 1 = 146097 * a + 36524 * b + 1461 * c + 365 * 4 + 0"
        using n f3 True by simp
      have "ord2ymd n = \<lparr>year = 400 * a + 100 * b + 4 * c + 4, month = 12, day = 31\<rparr>"
        by (subst ord2ymd_unfold [OF n']) (use yd c23 in simp_all)
      moreover have "y = 400 * a + 100 * b + 4 * c + 4" using yd(1) f3 by simp
      ultimately show ?thesis unfolding n_def D md by simp
    qed
  next
    case False
    then have e364: "e \<le> 364" using e1 by (simp split: if_splits)
    have "ord2ymd n = month_day (400 * a + 100 * b + 4 * c + f + 1) (f = 3 \<and> (c \<noteq> 24 \<or> b = 3)) e"
      by (subst ord2ymd_unfold [OF n]) (use yd e0 e364 in simp_all)
    also have "\<dots> = month_day y (is_leap y) e" using yd(1) lp by simp
    also have "\<dots> = \<lparr>year = y, month = m, day = d\<rparr>"
      by (rule month_day_inv [OF m d refl e_def])
    finally show ?thesis unfolding n_def D .
  qed
qed

text \<open>From the year 1000 on, the formatted date has ten characters, with slashes after
  the month and the day.\<close>

lemma length_str_small:
  assumes "0 \<le> n" "n \<le> 99"
  shows "length (zero_pad2 n) = 2"
proof (cases "n < 10")
  case True
  then have "nat n < 10" using assms by simp
  then have "length (str_nat (nat n)) = 1" by (subst str_nat.simps) simp
  then show ?thesis using True assms by (simp add: zero_pad2_def str_def)
next
  case False
  have "(length (str_nat (nat n)) \<le> 2) = (nat n < 10 ^ 2)" by (rule length_str_nat_le) simp
  moreover have "(length (str_nat (nat n)) \<le> 1) = (nat n < 10 ^ 1)" by (rule length_str_nat_le) simp
  moreover have "10 \<le> nat n" "nat n \<le> 99" using False assms by linarith+
  ultimately have "length (str_nat (nat n)) = 2" by (simp del: One_nat_def)
  then show ?thesis using False assms by (simp add: zero_pad2_def str_def)
qed

lemma days_in_month_le_31:
  assumes "1 \<le> m" "m \<le> 12"
  shows "days_in_month yr m \<le> 31"
  using assms
  by (cases m rule: month_cases) (simp_all add: days_in_month_def DAYS_IN_MONTH_def)

lemma format_date_for_fac_fields_shape:
  assumes "valid_date d" and "1000 \<le> year d"
  shows "length (format_date_for_fac_fields d) = 10
       \<and> format_date_for_fac_fields d ! 2 = CHR ''/''
       \<and> format_date_for_fac_fields d ! 5 = CHR ''/''"
proof -
  from assms(1) have m: "1 \<le> month d" "month d \<le> 12" and dy: "1 \<le> day d"
    "day d \<le> days_in_month (year d) (month d)" and y: "year d \<le> 9999"
    by (simp_all add: valid_date_def MAXYEAR_def)
  have lm: "length (zero_pad2 (month d)) = 2" using m by (intro length_str_small) simp_all
  have "day d \<le> 31" using dy(2) days_in_month_le_31 [OF m, of "year d"] by simp
  then have ld: "length (zero_pad2 (day d)) = 2" using dy by (intro length_str_small) simp_all
  have "1000 \<le> nat (year d)" "nat (year d) \<le> 9999" using assms(2) y by linarith+
  then have "length (str_nat (nat (year d))) = 4"
    by (simp add: length_str_nat_4)
  then have ly: "length (str (year d)) = 4" using assms(2) by (simp add: str_def)
  show ?thesis
    by (simp add: format_date_for_fac_fields_def strftime_mdY_def lm ld ly nth_append)
qed

lemma str_nat_digits: "set (str_nat n) \<subseteq> set digit_chars"
proof (induction n rule: str_nat.induct)
  case (1 n)
  have d: "digit_chars ! k \<in> set digit_chars" if "k < 10" for k
    using that by (intro nth_mem) (simp add: digit_chars_def)
  show ?case
  proof (cases "n < 10")
    case True
    then show ?thesis using d [of n] by (subst str_nat.simps) simp
  next
    case False
    then show ?thesis
      using "1.IH" d [of "n mod 10"] by (subst str_nat.simps) simp
  qed
qed

lemma zero_pad2_digits:
  assumes "0 \<le> n"
  shows "set (zero_pad2 n) \<subseteq> set digit_chars"
  using assms str_nat_digits [of "nat n"]
  by (auto simp add: zero_pad2_def str_def digit_chars_def)

lemma length_str_year:
  assumes "1 \<le> y" "y \<le> 9999"
  shows "(length (str y) = 4) = (1000 \<le> y)"
proof -
  have "(length (str_nat (nat y)) = 4) = (1000 \<le> nat y \<and> nat y \<le> 9999)"
    by (rule length_str_nat_4)
  moreover have "(1000 \<le> nat y \<and> nat y \<le> 9999) = (1000 \<le> y)" using assms by linarith
  ultimately show ?thesis using assms by (simp add: str_def)
qed

lemma format_date_for_fac_fields_layout:
  assumes "valid_date S"
  shows "(length (format_date_for_fac_fields S) = 10) = (1000 \<le> year S)"
    and "format_date_for_fac_fields S ! 2 = CHR ''/''"
    and "format_date_for_fac_fields S ! 5 = CHR ''/''"
    and "\<forall>i<length (format_date_for_fac_fields S). i \<noteq> 2 \<and> i \<noteq> 5
           \<longrightarrow> format_date_for_fac_fields S ! i \<in> set digit_chars"
proof -
  from assms have m: "1 \<le> month S" "month S \<le> 12" and dy: "1 \<le> day S"
    "day S \<le> days_in_month (year S) (month S)" and y: "1 \<le> year S" "year S \<le> 9999"
    by (simp_all add: valid_date_def MINYEAR_def MAXYEAR_def)
  define a b c where "a = zero_pad2 (month S)" and "b = zero_pad2 (day S)" and "c = str (year S)"
  have la: "length a = 2" unfolding a_def using m by (intro length_str_small) simp_all
  have "day S \<le> 31" using dy(2) days_in_month_le_31 [OF m, of "year S"] by simp
  then have lb: "length b = 2" unfolding b_def using dy by (intro length_str_small) simp_all
  have lc: "(length c = 4) = (1000 \<le> year S)" unfolding c_def by (rule length_str_year [OF y])
  have da: "set a \<subseteq> set digit_chars" unfolding a_def using m by (intro zero_pad2_digits) simp
  have db: "set b \<subseteq> set digit_chars" unfolding b_def using dy by (intro zero_pad2_digits) simp
  have dc: "set c \<subseteq> set digit_chars"
    unfolding c_def using y str_nat_digits [of "nat (year S)"] by (simp add: str_def)
  have f: "format_date_for_fac_fields S = a @ ''/'' @ b @ ''/'' @ c"
    by (simp add: format_date_for_fac_fields_def strftime_mdY_def a_def b_def c_def)
  show "(length (format_date_for_fac_fields S) = 10) = (1000 \<le> year S)"
    using la lb lc by (simp add: f)
  show "format_date_for_fac_fields S ! 2 = CHR ''/''" using la by (simp add: f nth_append)
  show "format_date_for_fac_fields S ! 5 = CHR ''/''" using la lb by (simp add: f nth_append)
  show "\<forall>i<length (format_date_for_fac_fields S). i \<noteq> 2 \<and> i \<noteq> 5
           \<longrightarrow> format_date_for_fac_fields S ! i \<in> set digit_chars"
  proof (intro allI impI)
    fix i
    assume i: "i < length (format_date_for_fac_fields S)" and n: "i \<noteq> 2 \<and> i \<noteq> 5"
    consider "i < 2" | "3 \<le> i" "i < 5" | "6 \<le> i" using n by linarith
    then show "format_date_for_fac_fields S ! i \<in> set digit_chars"
    proof cases
      case 1
      then have "format_date_for_fac_fields S ! i = a ! i" using la by (simp add: f nth_append)
      moreover have "a ! i \<in> set a" using 1 la by (intro nth_mem) simp
      ultimately show ?thesis using da by auto
    next
      case 2
      then have "format_date_for_fac_fields S ! i = b ! (i - 3)"
        using la lb by (auto simp add: f nth_append)
      moreover have "b ! (i - 3) \<in> set b" using 2 lb by (intro nth_mem) simp
      ultimately show ?thesis using db by auto
    next
      case 3
      then have "format_date_for_fac_fields S ! i = c ! (i - 6)"
        using la lb by (auto simp add: f nth_append)
      moreover have "c ! (i - 6) \<in> set c" using 3 i la lb by (intro nth_mem) (simp add: f)
      ultimately show ?thesis using dc by auto
    qed
  qed
qed

section \<open>The wait for the downloads\<close>

lemma list_completed_fst:
  "fst (list_completed_chrome_downloads p d)
     = (if all_complete p (scripts_run d) then Some (completed_paths p (scripts_run d)) else None)"
  by (simp add: list_completed_chrome_downloads_def Let_def all_complete_def completed_paths_def
      get_def record_event_def)

lemma list_completed_snd:
  "scripts_run (snd (list_completed_chrome_downloads p d)) = scripts_run d + 1"
  "session_open (snd (list_completed_chrome_downloads p d)) = session_open d"
  "prefix (events d) (events (snd (list_completed_chrome_downloads p d)))"
  by (simp_all add: list_completed_chrome_downloads_def Let_def get_def record_event_def)

lemma truthy_list_completed:
  "truthy (fst (list_completed_chrome_downloads p d))
     = (all_complete p (scripts_run d) \<and> download_items p (scripts_run d) \<noteq> [])"
  by (cases "download_items p (scripts_run d)")
    (simp_all add: list_completed_fst completed_paths_def)

lemma until_loop_timeout:
  assumes "\<forall>j. clock d + j \<le> end_time \<longrightarrow>
             \<not> (all_complete p (scripts_run d + j) \<and> download_items p (scripts_run d + j) \<noteq> [])"
    and "clock d \<le> end_time"
  shows "fst (until_loop p end_time d) = Inl TimeoutException
       \<and> session_open (snd (until_loop p end_time d)) = session_open d
       \<and> scripts_run (snd (until_loop p end_time d)) = scripts_run d + (end_time - clock d) + 1"
  using assms
proof (induction p end_time d rule: until_loop.induct)
  case (1 p end_time d)
  let ?r = "list_completed_chrome_downloads p d"
  let ?d2 = "sleep 1 (snd ?r)"
  have nt: "\<not> truthy (fst ?r)"
    using "1.prems"(1) [rule_format, of 0] "1.prems"(2) by (simp add: truthy_list_completed)
  have c2: "clock ?d2 = clock d + 1"
    by (simp add: sleep_def clock_list_completed_chrome_downloads)
  have s2: "scripts_run ?d2 = scripts_run d + 1" "session_open ?d2 = session_open d"
    by (simp_all add: sleep_def list_completed_snd)
  show ?case
  proof (cases "clock ?d2 > end_time")
    case True
    then show ?thesis
      using nt c2 s2 "1.prems"(2) by (subst (1 2 3) until_loop.simps) (simp add: Let_def)
  next
    case False
    have "\<forall>j. clock ?d2 + j \<le> end_time \<longrightarrow>
            \<not> (all_complete p (scripts_run ?d2 + j) \<and> download_items p (scripts_run ?d2 + j) \<noteq> [])"
      using "1.prems"(1) [rule_format, of "Suc j" for j] c2 s2 by simp
    moreover have "clock ?d2 \<le> end_time" using False by simp
    ultimately have IH: "fst (until_loop p end_time ?d2) = Inl TimeoutException
       \<and> session_open (snd (until_loop p end_time ?d2)) = session_open ?d2
       \<and> scripts_run (snd (until_loop p end_time ?d2)) = scripts_run ?d2 + (end_time - clock ?d2) + 1"
      using "1.IH" [OF refl nt refl False] by simp
    have unf: "until_loop p end_time d = until_loop p end_time ?d2"
      using nt False by (subst until_loop.simps) (simp add: Let_def)
    show ?thesis unfolding unf using IH c2 s2 False by simp
  qed
qed


lemma until_loop_success:
  assumes "clock d + n \<le> end_time"
    and "all_complete p (scripts_run d + n)" and "download_items p (scripts_run d + n) \<noteq> []"
    and "\<forall>j<n. \<not> (all_complete p (scripts_run d + j) \<and> download_items p (scripts_run d + j) \<noteq> [])"
  shows "fst (until_loop p end_time d) = Inr (completed_paths p (scripts_run d + n))
       \<and> scripts_run (snd (until_loop p end_time d)) = scripts_run d + n + 1
       \<and> clock (snd (until_loop p end_time d)) = clock d + n
       \<and> session_open (snd (until_loop p end_time d)) = session_open d"
  using assms
proof (induction n arbitrary: d)
  case 0
  let ?r = "list_completed_chrome_downloads p d"
  have t: "truthy (fst ?r)" using 0 by (simp add: truthy_list_completed)
  have "until_loop p end_time d = (Inr (the (fst ?r)), snd ?r)"
    using t by (subst until_loop.simps) (simp add: Let_def)
  then show ?case
    using 0 by (simp add: list_completed_fst list_completed_snd clock_list_completed_chrome_downloads)
next
  case (Suc n)
  let ?r = "list_completed_chrome_downloads p d"
  let ?d2 = "sleep 1 (snd ?r)"
  have nt: "\<not> truthy (fst ?r)"
    using Suc.prems(4) [rule_format, of 0] by (simp add: truthy_list_completed)
  have c2: "clock ?d2 = clock d + 1"
    by (simp add: sleep_def clock_list_completed_chrome_downloads)
  have s2: "scripts_run ?d2 = scripts_run d + 1" "session_open ?d2 = session_open d"
    by (simp_all add: sleep_def list_completed_snd)
  have le: "\<not> clock ?d2 > end_time" using Suc.prems(1) c2 by simp
  have unf: "until_loop p end_time d = until_loop p end_time ?d2"
    using nt le by (subst until_loop.simps) (simp add: Let_def)
  have "\<forall>j<n. \<not> (all_complete p (scripts_run ?d2 + j) \<and> download_items p (scripts_run ?d2 + j) \<noteq> [])"
    using Suc.prems(4) [rule_format, of "Suc j" for j] s2 by simp
  then have "fst (until_loop p end_time ?d2) = Inr (completed_paths p (scripts_run ?d2 + n))
       \<and> scripts_run (snd (until_loop p end_time ?d2)) = scripts_run ?d2 + n + 1
       \<and> clock (snd (until_loop p end_time ?d2)) = clock ?d2 + n
       \<and> session_open (snd (until_loop p end_time ?d2)) = session_open ?d2"
    using Suc.prems(1-3) c2 s2 by (intro Suc.IH) simp_all
  then show ?case unfolding unf using c2 s2 by simp
qed

lemma until_loop_value_nonempty:
  "fst (until_loop p end_time d) = Inr paths \<Longrightarrow> paths \<noteq> []"
proof (induction p end_time d rule: until_loop.induct)
  case (1 p end_time d)
  let ?r = "list_completed_chrome_downloads p d"
  show ?case
  proof (cases "truthy (fst ?r)")
    case True
    then have "until_loop p end_time d = (Inr (the (fst ?r)), snd ?r)"
      by (subst until_loop.simps) (simp add: Let_def)
    with "1.prems" have "the (fst ?r) = paths" by simp
    with True show ?thesis by (cases "fst ?r" rule: truthy.cases) auto
  next
    case False
    show ?thesis
    proof (cases "clock (sleep 1 (snd ?r)) > end_time")
      case True
      with False have "fst (until_loop p end_time d) = Inl TimeoutException"
        by (subst until_loop.simps) (simp add: Let_def)
      with "1.prems" show ?thesis by simp
    next
      case le: False
      have "until_loop p end_time d = until_loop p end_time (sleep 1 (snd ?r))"
        using False le by (subst until_loop.simps) (simp add: Let_def)
      with "1.prems" "1.IH" [OF refl False refl le] show ?thesis by simp
    qed
  qed
qed

lemma until_loop_extends:
  "session_open (snd (until_loop p end_time d)) = session_open d
   \<and> prefix (events d) (events (snd (until_loop p end_time d)))"
proof (induction p end_time d rule: until_loop.induct)
  case (1 p end_time d)
  let ?r = "list_completed_chrome_downloads p d"
  let ?d2 = "sleep 1 (snd ?r)"
  have base: "session_open ?d2 = session_open d" "prefix (events d) (events ?d2)"
    by (simp_all add: sleep_def list_completed_snd)
  show ?case
  proof (cases "truthy (fst ?r)")
    case True
    then have "until_loop p end_time d = (Inr (the (fst ?r)), snd ?r)"
      by (subst until_loop.simps) (simp add: Let_def)
    then show ?thesis by (simp add: list_completed_snd)
  next
    case False
    show ?thesis
    proof (cases "clock ?d2 > end_time")
      case True
      with False have "until_loop p end_time d = (Inl TimeoutException, ?d2)"
        by (subst until_loop.simps) (simp add: Let_def)
      then show ?thesis using base by simp
    next
      case le: False
      have "until_loop p end_time d = until_loop p end_time ?d2"
        using False le by (subst until_loop.simps) (simp add: Let_def)
      then show ?thesis
        using "1.IH" [OF refl False refl le] base by (auto intro: prefix_order.trans)
    qed
  qed
qed

section \<open>Steps only add events\<close>

lemma extends_refl: "extends d d"
  by (simp add: extends_def)

lemma extends_trans: "extends d d1 \<Longrightarrow> extends d1 d2 \<Longrightarrow> extends d d2"
  by (auto simp add: extends_def intro: prefix_order.trans)

lemma extends_record_event: "extends d (record_event e d)"
  by (simp add: extends_def record_event_def)

lemma extends_sleep: "extends d (sleep n d)"
  by (simp add: extends_def sleep_def)

lemma extends_get: "extends d (get p url d)"
  by (simp add: extends_def get_def record_event_def)

lemma keepsD: "keeps a \<Longrightarrow> a d = (r, d') \<Longrightarrow> extends d d'"
  by (auto simp add: keeps_def dest: spec [of _ d])

lemma keeps_always: "(\<And>d. extends d (f d)) \<Longrightarrow> keeps (always f)"
  by (simp add: keeps_def always_def)

lemma keeps_raise_or_return: "keeps (raise_or_return r)"
  by (simp add: keeps_def raise_or_return_def extends_refl)

lemma keeps_find_element_by_id: "keeps (find_element_by_id p i)"
  by (simp add: keeps_def find_element_by_id_def extends_refl)

lemma keeps_click: "keeps (click p e)"
  by (cases e) (simp_all add: keeps_def click_def extends_def record_event_def)

lemma keeps_clear: "keeps (clear e)"
  by (cases e) (simp_all add: keeps_def clear_def extends_def record_event_def)

lemma keeps_send_keys: "keeps (send_keys e k)"
  by (cases e) (simp_all add: keeps_def send_keys_def extends_def record_event_def)

lemma keeps_select_by_value: "keeps (select_by_value p e v)"
  by (cases e) (simp_all add: keeps_def select_by_value_def extends_def record_event_def)

lemma keeps_bind_action:
  assumes "keeps m" and "\<And>x. keeps (f x)"
  shows "keeps (bind_action m f)"
  unfolding keeps_def
proof
  fix d
  obtain r d1 where m: "m d = (r, d1)" by (cases "m d")
  then have e1: "extends d d1" using assms(1) by (rule keepsD [rotated])
  show "extends d (snd (bind_action m f d))"
  proof (cases r)
    case (Inl e)
    then show ?thesis using m e1 by (simp add: bind_action_def)
  next
    case (Inr x)
    obtain r2 d2 where f: "f x d1 = (r2, d2)" by (cases "f x d1")
    then have "extends d1 d2" using assms(2) [of x] by (rule keepsD [rotated])
    then show ?thesis using m Inr f e1 by (auto simp add: bind_action_def intro: extends_trans)
  qed
qed

lemma keeps_run_steps:
  assumes "list_all keeps steps"
  shows "keeps (run_steps steps)"
  using assms
proof (induction steps)
  case Nil
  show ?case by (simp add: keeps_def extends_refl)
next
  case (Cons a steps)
  then have a: "keeps a" and rest: "keeps (run_steps steps)" by simp_all
  show ?case
    unfolding keeps_def
  proof
    fix d
    obtain r d1 where m: "a d = (r, d1)" by (cases "a d")
    then have e1: "extends d d1" using a by (rule keepsD [rotated])
    show "extends d (snd (run_steps (a # steps) d))"
    proof (cases r)
      case (Inl e)
      then show ?thesis using m e1 by simp
    next
      case (Inr x)
      obtain r2 d2 where f: "run_steps steps d1 = (r2, d2)" by (cases "run_steps steps d1")
      then have "extends d1 d2" using rest by (rule keepsD [rotated])
      then show ?thesis using m Inr f e1 by (auto intro: extends_trans)
    qed
  qed
qed

lemma keeps_click_id: "keeps (click_id p i)"
  unfolding click_id_def by (intro keeps_bind_action keeps_find_element_by_id keeps_click)

lemma keeps_locate_id: "keeps (locate_id p i)"
  unfolding locate_id_def by (intro keeps_bind_action keeps_find_element_by_id keeps_raise_or_return)

lemmas keeps_intros =
  keeps_bind_action keeps_run_steps keeps_click_id keeps_locate_id keeps_find_element_by_id
  keeps_click keeps_clear keeps_send_keys keeps_select_by_value keeps_raise_or_return
  keeps_always extends_sleep extends_get

lemma keeps_search_fac: "keeps (search_fac ev agency_prefix subagency_extension)"
  unfolding search_fac_def
  by (rule keeps_run_steps) (simp add: keeps_intros)

lemma run_steps_first:
  assumes "list_all keeps steps" and "run_steps (always f # steps) d = (r, d')"
  shows "extends (f d) d'"
proof -
  have "run_steps steps (f d) = (r, d')" using assms(2) by (simp add: always_def)
  then show ?thesis by (rule keepsD [OF keeps_run_steps [OF assms(1)]])
qed

lemma search_fac_first_event:
  assumes "search_fac ev agency_prefix subagency_extension d = (r, d')"
  shows "session_open d' = session_open d \<and> prefix (events d @ [Get FAC_URL]) (events d')"
proof -
  have "extends (get (fac ev) FAC_URL d) d'"
    apply (rule run_steps_first [where f = "get (fac ev) FAC_URL"])
     prefer 2
     apply (rule assms [unfolded search_fac_def])
    apply (simp add: keeps_intros)
    done
  then show ?thesis by (simp add: extends_def get_def record_event_def)
qed

lemma click_result_links_extends:
  "extends d (snd (click_result_links p sfx ns dl d))"
proof (induction ns arbitrary: dl d)
  case Nil
  show ?case by (simp add: extends_refl)
next
  case (Cons n ns)
  define dl' where "dl' = (case find_element_by_id p (result_link_name sfx n) d of
                             (Inr e, _) \<Rightarrow> Some e | (Inl _, _) \<Rightarrow> dl)"
  show ?case
  proof (cases dl')
    case None
    then show ?thesis by (simp add: dl'_def [symmetric] Let_def extends_refl)
  next
    case (Some e)
    obtain r d1 where c: "click p e d = (r, d1)" by (cases "click p e d")
    then have e1: "extends d d1" by (rule keepsD [OF keeps_click])
    show ?thesis
    proof (cases r)
      case (Inl err)
      then show ?thesis using Some c e1 by (simp add: dl'_def [symmetric] Let_def)
    next
      case (Inr u)
      then have "click_result_links p sfx (n # ns) dl d = click_result_links p sfx ns (Some e) d1"
        using Some c by (simp add: dl'_def [symmetric] Let_def)
      then show ?thesis using extends_trans [OF e1 Cons.IH [of d1 "Some e"]] by simp
    qed
  qed
qed

lemma click_on_stable_page:
  assumes "stays p (current d)" and "found_on e = current d" and "e = Element dc i"
  shows "click p e d = (Inr (), record_event (Click dc i) d)"
  using assms by (simp add: click_def stays_def record_event_def)

lemma click_result_links_stable:
  assumes "stays p (current d)" and "\<forall>e. dl = Some e \<longrightarrow> (\<exists>i. e = Element (current d) i)"
  shows "\<exists>new. snd (click_result_links p sfx ns dl d) = d\<lparr>events := events d @ new\<rparr>
             \<and> list_all is_click new
             \<and> (dl \<noteq> None \<longrightarrow> fst (click_result_links p sfx ns dl d) = Inr () \<and> length new = length ns)"
  using assms
proof (induction ns arbitrary: dl d)
  case Nil
  show ?case by (rule exI [of _ "[]"]) simp
next
  case (Cons n ns)
  let ?name = "result_link_name sfx n"
  define dl' where "dl' = (case find_element_by_id p ?name d of (Inr e, _) \<Rightarrow> Some e | (Inl _, _) \<Rightarrow> dl)"
  show ?case
  proof (cases dl')
    case None
    then have "dl = None" by (auto simp add: dl'_def find_element_by_id_def split: if_splits)
    moreover have "click_result_links p sfx (n # ns) dl d = (Inl UnboundLocalError, d)"
      using None by (simp add: dl'_def Let_def)
    ultimately show ?thesis by (intro exI [of _ "[]"]) simp
  next
    case (Some e)
    then obtain i where e: "e = Element (current d) i"
      using Cons.prems(2) by (auto simp add: dl'_def find_element_by_id_def split: if_splits)
    let ?d1 = "record_event (Click (current d) i) d"
    have c: "click p e d = (Inr (), ?d1)"
      by (rule click_on_stable_page [OF Cons.prems(1) _ e]) (simp add: e)
    have unf: "click_result_links p sfx (n # ns) dl d = click_result_links p sfx ns (Some e) ?d1"
      using Some c by (simp add: dl'_def [symmetric] Let_def)
    have cur: "current ?d1 = current d" by (simp add: record_event_def)
    have "\<exists>new. snd (click_result_links p sfx ns (Some e) ?d1) = ?d1\<lparr>events := events ?d1 @ new\<rparr>
             \<and> list_all is_click new
             \<and> (Some e \<noteq> None \<longrightarrow> fst (click_result_links p sfx ns (Some e) ?d1) = Inr () \<and> length new = length ns)"
      using Cons.prems(1) e by (intro Cons.IH) (simp_all add: cur)
    then obtain new where new: "snd (click_result_links p sfx ns (Some e) ?d1) = ?d1\<lparr>events := events ?d1 @ new\<rparr>"
      "list_all is_click new" "fst (click_result_links p sfx ns (Some e) ?d1) = Inr ()" "length new = length ns"
      by auto
    show ?thesis
      unfolding unf
      by (rule exI [of _ "Click (current d) i # new"]) (use new in \<open>simp add: record_event_def\<close>)
  qed
qed

lemma download_one_set_stable:
  assumes "stays p (current d)"
  shows "\<exists>new. snd (download_one_set_of_result_files p file_type d) = d\<lparr>events := events d @ new\<rparr>
             \<and> list_all is_click new"
proof (cases "file_type = ''SF-SAC'' \<or> file_type = ''PDF''")
  case True
  define sfx where "sfx = (if file_type = ''SF-SAC'' then ''Form'' else ''Audit'')"
  obtain new where "snd (click_result_links p sfx [0..<max_number_of_search_results] None d) = d\<lparr>events := events d @ new\<rparr>"
    "list_all is_click new"
    using click_result_links_stable [OF assms, of None sfx "[0..<max_number_of_search_results]"] by auto
  then show ?thesis
    using True by (auto simp add: download_one_set_of_result_files_def Let_def sfx_def split: prod.splits sum.splits)
next
  case False
  then show ?thesis
    by (intro exI [of _ "[]"]) (simp add: download_one_set_of_result_files_def)
qed

lemma download_all_linked_files_stable:
  assumes "stays p (current d)"
  shows "\<exists>new. download_all_linked_files p d = d\<lparr>events := events d @ CalledDownloadAll (current d) # new\<rparr>
             \<and> list_all is_click new"
proof -
  let ?d0 = "record_event (CalledDownloadAll (current d)) d"
  have s0: "stays p (current ?d0)" using assms by (simp add: record_event_def)
  obtain n1 where n1: "snd (download_one_set_of_result_files p ''SF-SAC'' ?d0) = ?d0\<lparr>events := events ?d0 @ n1\<rparr>"
    "list_all is_click n1"
    using download_one_set_stable [OF s0] by blast
  let ?d1 = "?d0\<lparr>events := events ?d0 @ n1\<rparr>"
  have s1: "stays p (current ?d1)" using assms by (simp add: record_event_def)
  obtain n2 where n2: "snd (download_one_set_of_result_files p ''PDF'' ?d1) = ?d1\<lparr>events := events ?d1 @ n2\<rparr>"
    "list_all is_click n2"
    using download_one_set_stable [OF s1] by blast
  have "download_all_linked_files p d
          = snd (download_one_set_of_result_files p ''PDF''
                  (snd (download_one_set_of_result_files p ''SF-SAC'' ?d0)))"
    by (simp add: download_all_linked_files_def Let_def)
  also have "\<dots> = ?d1\<lparr>events := events ?d1 @ n2\<rparr>"
    unfolding n1(1) n2(1) ..
  also have "\<dots> = d\<lparr>events := events d @ CalledDownloadAll (current d) # (n1 @ n2)\<rparr>"
    by (simp add: record_event_def)
  finally show ?thesis
    using n1(2) n2(2) by (intro exI [of _ "n1 @ n2"]) simp
qed

lemma download_all_linked_files_extends: "extends d (download_all_linked_files p d)"
proof -
  let ?d0 = "record_event (CalledDownloadAll (current d)) d"
  let ?d1 = "snd (download_one_set_of_result_files p ''SF-SAC'' ?d0)"
  have one: "extends x (snd (download_one_set_of_result_files p ft x))" for ft x
  proof (cases "ft = ''SF-SAC'' \<or> ft = ''PDF''")
    case True
    define sfx where "sfx = (if ft = ''SF-SAC'' then ''Form'' else ''Audit'')"
    obtain r x' where c: "click_result_links p sfx [0..<max_number_of_search_results] None x = (r, x')"
      by (cases "click_result_links p sfx [0..<max_number_of_search_results] None x")
    then have "extends x x'"
      using click_result_links_extends [of x p sfx "[0..<max_number_of_search_results]" None] by simp
    then show ?thesis
      using True c by (cases r) (simp_all add: download_one_set_of_result_files_def Let_def sfx_def [symmetric])
  next
    case False
    then show ?thesis by (simp add: download_one_set_of_result_files_def extends_refl)
  qed
  have "extends d ?d0" by (rule extends_record_event)
  then have "extends d ?d1" by (rule extends_trans) (rule one)
  then have "extends d (snd (download_one_set_of_result_files p ''PDF'' ?d1))"
    by (rule extends_trans) (rule one)
  then show ?thesis by (simp add: download_all_linked_files_def Let_def)
qed

text \<open>With slot 0 present and clicks that stay on the page, one category gets 25 clicks,
  however many of the slots exist; with slot 0 missing it gets none.\<close>

lemma click_result_links_first_present:
  assumes st: "stays p (current d)"
    and present: "result_link_name sfx n \<in> set (element_ids p (current d))"
  shows "\<exists>new. click_result_links p sfx (n # ns) None d = (Inr (), d\<lparr>events := events d @ new\<rparr>)
           \<and> length new = Suc (length ns) \<and> list_all is_click new"
proof -
  let ?e = "Element (current d) (result_link_name sfx n)"
  define d1 where "d1 = record_event (Click (current d) (result_link_name sfx n)) d"
  have c: "click p ?e d = (Inr (), d1)"
    unfolding d1_def by (rule click_on_stable_page [OF st]) simp_all
  have unf: "click_result_links p sfx (n # ns) None d = click_result_links p sfx ns (Some ?e) d1"
    using present c by (simp add: find_element_by_id_def Let_def)
  have cur: "current d1 = current d" by (simp add: d1_def record_event_def)
  have "\<exists>new. snd (click_result_links p sfx ns (Some ?e) d1) = d1\<lparr>events := events d1 @ new\<rparr>
             \<and> list_all is_click new
             \<and> (Some ?e \<noteq> None \<longrightarrow> fst (click_result_links p sfx ns (Some ?e) d1) = Inr ()
                  \<and> length new = length ns)"
    using st by (intro click_result_links_stable) (simp_all add: cur)
  then obtain new where new: "snd (click_result_links p sfx ns (Some ?e) d1) = d1\<lparr>events := events d1 @ new\<rparr>"
    "list_all is_click new" "fst (click_result_links p sfx ns (Some ?e) d1) = Inr ()"
    "length new = length ns"
    by auto
  then have "click_result_links p sfx ns (Some ?e) d1 = (Inr (), d1\<lparr>events := events d1 @ new\<rparr>)"
    by (simp add: prod_eq_iff)
  then show ?thesis
    unfolding unf using new(2,4)
    by (intro exI [of _ "Click (current d) (result_link_name sfx n) # new"])
      (simp add: d1_def record_event_def)
qed

lemma one_set_clicks_once_per_slot:
  "(stays p (current d) \<and> result_link_name ''Form'' 0 \<in> set (element_ids p (current d))
      \<longrightarrow> (\<exists>new. download_one_set_of_result_files p ''SF-SAC'' d
                     = (Inr True, d\<lparr>events := events d @ new\<rparr>)
                 \<and> length new = 25 \<and> list_all is_click new))
   \<and> (result_link_name ''Form'' 0 \<notin> set (element_ids p (current d))
      \<longrightarrow> download_one_set_of_result_files p ''SF-SAC'' d = (Inl UnboundLocalError, d))"
proof (intro conjI impI)
  have upt: "[0..<max_number_of_search_results] = 0 # [1..<25]"
    by (simp add: max_number_of_search_results_def upt_rec [of 0])
  {
    assume "stays p (current d) \<and> result_link_name ''Form'' 0 \<in> set (element_ids p (current d))"
    then obtain new where "click_result_links p ''Form'' (0 # [1..<25]) None d
          = (Inr (), d\<lparr>events := events d @ new\<rparr>)"
      "length new = Suc (length [1..<25])" "list_all is_click new"
      using click_result_links_first_present [of p d "''Form''" 0 "[1..<25]"] by blast
    then show "\<exists>new. download_one_set_of_result_files p ''SF-SAC'' d
                     = (Inr True, d\<lparr>events := events d @ new\<rparr>)
                 \<and> length new = 25 \<and> list_all is_click new"
      by (intro exI [of _ new]) (simp add: download_one_set_of_result_files_def upt)
  }
  {
    assume "result_link_name ''Form'' 0 \<notin> set (element_ids p (current d))"
    then have "click_result_links p ''Form'' (0 # [1..<25]) None d = (Inl UnboundLocalError, d)"
      by (simp add: find_element_by_id_def Let_def)
    then show "download_one_set_of_result_files p ''SF-SAC'' d = (Inl UnboundLocalError, d)"
      by (simp add: download_one_set_of_result_files_def upt)
  }
qed

section \<open>The loop over the result pages\<close>

lemma pager_loop_extends:
  assumes "pager_loop p l k d = Some y"
  shows "extends d (snd y)"
  using assms
proof (induction rule: pager_loop.raw_induct [rotated 1, consumes 1])
  case (1 loop p l k d y)
  show ?case
  proof (cases l)
    case None
    with "1.hyps" show ?thesis by (auto simp add: extends_refl)
  next
    case (Some lk)
    obtain r d1 where c: "click p lk d = (r, d1)" by (cases "click p lk d")
    then have e1: "extends d d1" by (rule keepsD [OF keeps_click])
    show ?thesis
    proof (cases r)
      case (Inl err)
      with "1.hyps" Some c e1 show ?thesis by auto
    next
      case (Inr u)
      let ?d3 = "download_all_linked_files p (sleep 1 d1)"
      have "loop p (get_next_pager_link p ?d3 (k + 1)) (k + 1) ?d3 = Some y"
        using "1.hyps" Some c Inr by (simp add: Let_def)
      then have "extends ?d3 (snd y)" by (rule "1.IH")
      moreover have "extends d ?d3"
        by (rule extends_trans [OF e1 extends_trans [OF extends_sleep download_all_linked_files_extends]])
      ultimately show ?thesis by (rule extends_trans [rotated])
    qed
  qed
qed

lemma get_next_pager_link_Some:
  assumes "pager_links p (current d) = Some links"
    and "find (\<lambda>l. fst l = str (int (n + 1))) links = Some l"
  shows "get_next_pager_link p d n = Some (PagerLink (current d) (str (int (n + 1))) (snd l))"
  using assms
  by (simp add: get_next_pager_link_def find_element_by_css_selector_def
      find_element_by_link_text_def Let_def)

lemma get_next_pager_link_None_iff:
  "(get_next_pager_link p d n = None)
     = (case pager_links p (current d) of
          None \<Rightarrow> True
        | Some links \<Rightarrow> find (\<lambda>l. fst l = str (int (n + 1))) links = None)"
  by (simp add: get_next_pager_link_def find_element_by_css_selector_def
      find_element_by_link_text_def Let_def split: option.splits)

lemma pager_loop_pages:
  fixes r :: "nat \<Rightarrow> doc"
  assumes stay: "\<forall>m. 1 \<le> m \<and> m \<le> K \<longrightarrow> stays p (r m)"
    and nxt: "\<forall>m. 1 \<le> m \<and> m < K \<longrightarrow>
                (\<exists>links. pager_links p (r m) = Some links
                   \<and> find (\<lambda>l. fst l = str (int (m + 1))) links = Some (str (int (m + 1)), r (m + 1)))"
    and last: "case pager_links p (r K) of
                 None \<Rightarrow> True
               | Some links \<Rightarrow> find (\<lambda>l. fst l = str (int (K + 1))) links = None"
    and n: "1 \<le> n" "n \<le> K" and cur: "current d = r n"
  shows "\<exists>d' new. pager_loop p (get_next_pager_link p d n) n d = Some (Inr K, d')
           \<and> current d' = r K \<and> events d' = events d @ new
           \<and> filter (\<lambda>e. \<not> is_click e) new
               = concat (map (\<lambda>m. [FollowLink (r m) (str (int (m + 1))), CalledDownloadAll (r (m + 1))]) [n..<K])"
  using n cur
proof (induction "K - n" arbitrary: n d)
  case 0
  then have nK: "n = K" by simp
  have "get_next_pager_link p d n = None"
    using last "0.prems"(3) by (simp add: get_next_pager_link_None_iff nK)
  then have "pager_loop p (get_next_pager_link p d n) n d = Some (Inr K, d)"
    by (simp add: pager_loop.simps nK)
  then show ?case
    using "0.prems"(3) nK by (intro exI [of _ d] exI [of _ "[]"]) simp
next
  case (Suc k)
  then have lt: "n < K" by simp
  let ?label = "str (int (n + 1))"
  obtain links where links: "pager_links p (r n) = Some links"
    "find (\<lambda>l. fst l = ?label) links = Some (?label, r (n + 1))"
    using nxt Suc.prems(1) lt by blast
  have gl: "get_next_pager_link p d n = Some (PagerLink (r n) ?label (r (n + 1)))"
    using get_next_pager_link_Some [of p d links n] links Suc.prems(3) by simp
  define d1 where "d1 = record_event (FollowLink (r n) ?label) (d\<lparr>current := r (n + 1)\<rparr>)"
  have c: "click p (PagerLink (r n) ?label (r (n + 1))) d = (Inr (), d1)"
    using Suc.prems(3) by (simp add: click_def d1_def)
  define d2 where "d2 = sleep 1 d1"
  have cur2: "current d2 = r (n + 1)" by (simp add: d2_def d1_def sleep_def record_event_def)
  have ev2: "events d2 = events d @ [FollowLink (r n) ?label]"
    by (simp add: d2_def d1_def sleep_def record_event_def)
  have "stays p (current d2)" using stay lt cur2 by simp
  then obtain clicks where d3: "download_all_linked_files p d2
        = d2\<lparr>events := events d2 @ CalledDownloadAll (current d2) # clicks\<rparr>"
    and clicks: "list_all is_click clicks"
    using download_all_linked_files_stable [of p d2] by blast
  define d3 where "d3 = download_all_linked_files p d2"
  have cur3: "current d3 = r (n + 1)" unfolding d3_def d3 using cur2 by simp
  have ev3: "events d3 = events d @ FollowLink (r n) ?label # CalledDownloadAll (r (n + 1)) # clicks"
    unfolding d3_def d3 using cur2 ev2 by simp
  have "k = K - (n + 1)" using Suc.hyps(2) by simp
  then obtain d' new where IH:
    "pager_loop p (get_next_pager_link p d3 (n + 1)) (n + 1) d3 = Some (Inr K, d')"
    "current d' = r K" "events d' = events d3 @ new"
    "filter (\<lambda>e. \<not> is_click e) new
       = concat (map (\<lambda>m. [FollowLink (r m) (str (int (m + 1))), CalledDownloadAll (r (m + 1))]) [n + 1..<K])"
    using Suc.hyps(1) [of "n + 1" d3] lt cur3 by auto
  have unf: "pager_loop p (get_next_pager_link p d n) n d
        = pager_loop p (get_next_pager_link p d3 (n + 1)) (n + 1) d3"
    unfolding gl
    by (subst pager_loop.simps) (simp only: option.case c prod.case sum.case Let_def d3_def d2_def)
  have fl: "filter (\<lambda>e. \<not> is_click e) clicks = []"
    using clicks by (induction clicks) simp_all
  have upt: "[n..<K] = n # [n + 1..<K]" using lt by (simp add: upt_conv_Cons)
  have "pager_loop p (get_next_pager_link p d n) n d = Some (Inr K, d')"
    unfolding unf by (rule IH(1))
  then show ?case
    by (intro exI [of _ d']
        exI [of _ "FollowLink (r n) ?label # CalledDownloadAll (r (n + 1)) # clicks @ new"])
      (simp add: IH(2-) ev3 fl upt)
qed

lemma download_result_pages_visits:
  fixes r :: "nat \<Rightarrow> doc"
  assumes K: "1 \<le> K" and cur: "current d = r 1"
    and stay: "\<forall>m. 1 \<le> m \<and> m \<le> K \<longrightarrow> stays p (r m)"
    and nxt: "\<forall>m. 1 \<le> m \<and> m < K \<longrightarrow>
                (\<exists>links. pager_links p (r m) = Some links
                   \<and> find (\<lambda>l. fst l = str (int (m + 1))) links = Some (str (int (m + 1)), r (m + 1)))"
    and last: "case pager_links p (r K) of
                 None \<Rightarrow> True
               | Some links \<Rightarrow> find (\<lambda>l. fst l = str (int (K + 1))) links = None"
  shows "\<exists>d' new. download_result_pages p d = Some (Inr K, d')
           \<and> current d' = r K \<and> events d' = events d @ new
           \<and> filter (\<lambda>e. \<not> is_click e) new
               = CalledDownloadAll (r 1)
                 # concat (map (\<lambda>m. [FollowLink (r m) (str (int (m + 1))), CalledDownloadAll (r (m + 1))]) [1..<K])"
proof -
  have "stays p (current d)" using stay K cur by simp
  then obtain clicks where d0: "download_all_linked_files p d
        = d\<lparr>events := events d @ CalledDownloadAll (current d) # clicks\<rparr>"
    and clicks: "list_all is_click clicks"
    using download_all_linked_files_stable [of p d] by blast
  define d0 where "d0 = download_all_linked_files p d"
  have cur0: "current d0 = r 1" unfolding d0_def d0 using cur by simp
  have ev0: "events d0 = events d @ CalledDownloadAll (r 1) # clicks"
    unfolding d0_def d0 using cur by simp
  obtain d' new where L:
    "pager_loop p (get_next_pager_link p d0 1) 1 d0 = Some (Inr K, d')"
    "current d' = r K" "events d' = events d0 @ new"
    "filter (\<lambda>e. \<not> is_click e) new
       = concat (map (\<lambda>m. [FollowLink (r m) (str (int (m + 1))), CalledDownloadAll (r (m + 1))]) [1..<K])"
    using pager_loop_pages [OF stay nxt last _ K cur0] by auto
  have fl: "filter (\<lambda>e. \<not> is_click e) clicks = []"
    using clicks by (induction clicks) simp_all
  have "download_result_pages p d = Some (Inr K, d')"
    unfolding download_result_pages_def Let_def d0_def [symmetric] by (rule L(1))
  then show ?thesis
    by (intro exI [of _ d'] exI [of _ "CalledDownloadAll (r 1) # clicks @ new"])
      (simp add: L(2-) fl ev0)
qed

section \<open>The workflow as a whole\<close>

lemma download_result_pages_extends:
  assumes "download_result_pages p d = Some y"
  shows "extends d (snd y)"
proof -
  let ?d0 = "download_all_linked_files p d"
  have "pager_loop p (get_next_pager_link p ?d0 1) 1 ?d0 = Some y"
    using assms by (simp add: download_result_pages_def Let_def)
  then have "extends ?d0 (snd y)" by (rule pager_loop_extends)
  with download_all_linked_files_extends show ?thesis by (rule extends_trans)
qed

lemma search_and_download_state:
  assumes "search_and_download ev a s = Some (r, d)"
  shows "session_open d = chromedriver_present ev"
    and "chromedriver_present ev \<Longrightarrow> prefix [Get FAC_URL] (events d)"
proof -
  define ap where "ap = (case a of PyStr x \<Rightarrow> x | _ \<Rightarrow> DEPT_OF_TRANSPORTATION_PREFIX)"
  define se where "se = (case s of PyNone \<Rightarrow> PyStr FTA_SUBAGENCY_CODE | v \<Rightarrow> v)"
  have both: "session_open d = chromedriver_present ev
      \<and> (chromedriver_present ev \<longrightarrow> prefix [Get FAC_URL] (events d))"
  proof (cases "chromedriver_present ev")
    case False
    then show ?thesis
      using assms
      by (auto simp add: search_and_download_def Let_def webdriver_Chrome_def
          check_for_chromedriver_def no_browser_def record_event_def)
  next
    case True
    define d0 where "d0 = no_browser\<lparr>session_open := True\<rparr>"
    obtain r1 d1 where sf: "search_fac ev ap se d0 = (r1, d1)" by (cases "search_fac ev ap se d0")
    from search_fac_first_event [OF sf]
    have d1: "session_open d1" "prefix [Get FAC_URL] (events d1)"
      by (simp_all add: d0_def no_browser_def)
    show ?thesis
    proof (cases r1)
      case (Inl e)
      then have "d = d1"
        using assms True sf
        by (simp add: search_and_download_def Let_def webdriver_Chrome_def
            check_for_chromedriver_def ap_def [symmetric] se_def [symmetric] d0_def [symmetric])
      then show ?thesis using d1 True by simp
    next
      case (Inr u)
      then have "download_result_pages (fac ev) d1 = Some (r, d)"
        using assms True sf
        by (simp add: search_and_download_def Let_def webdriver_Chrome_def
            check_for_chromedriver_def ap_def [symmetric] se_def [symmetric] d0_def [symmetric])
      then have "extends d1 d" using download_result_pages_extends by fastforce
      then show ?thesis
        using d1 True by (auto simp add: extends_def intro: prefix_order.trans)
    qed
  qed
  from both show "session_open d = chromedriver_present ev" by simp
  from both show "chromedriver_present ev \<Longrightarrow> prefix [Get FAC_URL] (events d)" by simp
qed

lemma WebDriverWait_until_extends:
  "session_open (snd (WebDriverWait_until p t d)) = session_open d"
  "prefix (events d) (events (snd (WebDriverWait_until p t d)))"
  using until_loop_extends [of p "clock d + t" d] by (simp_all add: WebDriverWait_until_def)

lemma download_files_from_fac_cases:
  assumes "download_files_from_fac ev a s = Some (r, d)"
  obtains (before) e where "search_and_download ev a s = Some (Inl e, d)" "r = Inl e"
    | (timed_out) k d1 e where "search_and_download ev a s = Some (Inr k, d1)"
        "WebDriverWait_until (fac ev) 500 d1 = (Inl e, d)" "r = Inl e"
    | (returned) k d1 paths d2 where "search_and_download ev a s = Some (Inr k, d1)"
        "WebDriverWait_until (fac ev) 500 d1 = (Inr paths, d2)" "paths \<noteq> []"
        "r = Inr download_completed_response" "d = quit d2"
proof (cases "search_and_download ev a s")
  case None
  with assms show ?thesis by (simp add: download_files_from_fac_def)
next
  case (Some y)
  obtain r1 d1 where y: "y = (r1, d1)" by (cases y)
  show ?thesis
  proof (cases r1)
    case (Inl e)
    with assms Some y show ?thesis by (intro before [of e]) (simp_all add: download_files_from_fac_def)
  next
    case (Inr k)
    obtain r2 d2 where w: "WebDriverWait_until (fac ev) 500 d1 = (r2, d2)"
      by (cases "WebDriverWait_until (fac ev) 500 d1")
    show ?thesis
    proof (cases r2)
      case (Inl e)
      with assms Some y Inr w show ?thesis
        by (intro timed_out [of k d1 e]) (simp_all add: download_files_from_fac_def)
    next
      case r2: (Inr paths)
      have "fst (until_loop (fac ev) (clock d1 + 500) d1) = Inr paths"
        using w r2 by (simp add: WebDriverWait_until_def)
      then have ne: "paths \<noteq> []" by (rule until_loop_value_nonempty)
      with assms Some y Inr w r2 show ?thesis
        by (intro returned [of k d1 paths d2]) (simp_all add: download_files_from_fac_def)
    qed
  qed
qed

lemma timeout_propagates:
  assumes "search_and_download ev a s = Some (Inr k, d)"
    and "\<forall>n\<le>500. \<not> (all_complete (fac ev) (scripts_run d + n)
                        \<and> download_items (fac ev) (scripts_run d + n) \<noteq> [])"
  shows "\<exists>d'. download_files_from_fac ev a s = Some (Inl TimeoutException, d')
           \<and> session_open d' = session_open d \<and> scripts_run d' = scripts_run d + 501"
proof -
  let ?w = "until_loop (fac ev) (clock d + 500) d"
  have "fst ?w = Inl TimeoutException \<and> session_open (snd ?w) = session_open d
        \<and> scripts_run (snd ?w) = scripts_run d + (clock d + 500 - clock d) + 1"
    using assms(2) by (intro until_loop_timeout) simp_all
  then obtain d' where "?w = (Inl TimeoutException, d')" "session_open d' = session_open d"
    "scripts_run d' = scripts_run d + 501"
    by (cases ?w) simp
  then show ?thesis
    using assms(1)
    by (intro exI [of _ d']) (simp add: download_files_from_fac_def WebDriverWait_until_def)
qed

lemma demo_env_reaches_wait:
  "case search_and_download (demo_env items) PyNone PyNone of
     Some (Inr k, d) \<Rightarrow> k = 1 \<and> session_open d \<and> scripts_run d = 0 \<and> clock d = 6
   | _ \<Rightarrow> False"
  by code_simp

section \<open>Steps that do not read the events\<close>

lemma quiet_simps [simp]:
  "quiet []" "quiet (e # es) = (\<not> is_select e \<and> quiet es)" "quiet (xs @ ys) = (quiet xs \<and> quiet ys)"
  by (simp_all add: quiet_def)



lemma blindI: "(\<And>d. \<exists>new. quiet new \<and> appends a d new) \<Longrightarrow> blind a"
  by (simp add: blind_def)

lemma blindD: "blind a \<Longrightarrow> \<exists>new. quiet new \<and> appends a d new"
  by (simp add: blind_def)

lemma blind_find_element_by_id: "blind (find_element_by_id p i)"
  by (rule blindI, rule exI [of _ "[]"]) (simp add: appends_def find_element_by_id_def)

lemma blind_raise_or_return: "blind (raise_or_return r)"
  by (rule blindI, rule exI [of _ "[]"]) (simp add: appends_def raise_or_return_def)

lemma blind_click: "blind (click p e)"
proof (rule blindI)
  fix d
  show "\<exists>new. quiet new \<and> appends (click p e) d new"
  proof (cases "found_on e = current d")
    case False
    then show ?thesis by (intro exI [of _ "[]"]) (simp add: appends_def click_def)
  next
    case True
    then show ?thesis
    proof (cases e)
      case (Element dc i)
      with True show ?thesis
        by (intro exI [of _ "[Click dc i]"]) (simp add: appends_def click_def record_event_def)
    next
      case (PagerRow dc)
      with True show ?thesis by (intro exI [of _ "[]"]) (simp add: appends_def click_def)
    next
      case (PagerLink dc label target)
      with True show ?thesis
        by (intro exI [of _ "[FollowLink dc label]"]) (simp add: appends_def click_def record_event_def)
    qed
  qed
qed

lemma blind_clear: "blind (clear e)"
proof (rule blindI)
  fix d
  show "\<exists>new. quiet new \<and> appends (clear e) d new"
  proof (cases "found_on e = current d")
    case False
    then show ?thesis by (intro exI [of _ "[]"]) (simp add: appends_def clear_def)
  next
    case True
    then show ?thesis
    proof (cases e)
      case (Element dc i)
      with True show ?thesis
        by (intro exI [of _ "[Clear dc i]"]) (simp add: appends_def clear_def record_event_def)
    next
      case (PagerRow dc)
      with True show ?thesis by (intro exI [of _ "[]"]) (simp add: appends_def clear_def)
    next
      case (PagerLink dc label target)
      with True show ?thesis by (intro exI [of _ "[]"]) (simp add: appends_def clear_def)
    qed
  qed
qed

lemma blind_send_keys: "blind (send_keys e k)"
proof (rule blindI)
  fix d
  show "\<exists>new. quiet new \<and> appends (send_keys e k) d new"
  proof (cases "found_on e = current d")
    case False
    then show ?thesis by (intro exI [of _ "[]"]) (simp add: appends_def send_keys_def)
  next
    case True
    then show ?thesis
    proof (cases e)
      case (Element dc i)
      with True show ?thesis
        by (intro exI [of _ "[SendKeys dc i k]"]) (simp add: appends_def send_keys_def record_event_def)
    next
      case (PagerRow dc)
      with True show ?thesis by (intro exI [of _ "[]"]) (simp add: appends_def send_keys_def)
    next
      case (PagerLink dc label target)
      with True show ?thesis by (intro exI [of _ "[]"]) (simp add: appends_def send_keys_def)
    qed
  qed
qed

lemma blind_always:
  assumes "blind_update f"
  shows "blind (always f)"
proof (rule blindI)
  fix d
  obtain new where "quiet new" "\<forall>es. f (d\<lparr>events := es\<rparr>) = (f d)\<lparr>events := es @ new\<rparr>"
    using assms unfolding blind_update_def by blast
  then show "\<exists>new. quiet new \<and> appends (always f) d new"
    by (intro exI [of _ new]) (simp add: appends_def always_def)
qed

lemma blind_update_sleep: "blind_update (sleep n)"
  unfolding blind_update_def
  by (intro allI exI [of _ "[]"]) (simp add: sleep_def)

lemma blind_update_get: "blind_update (get p url)"
  unfolding blind_update_def
  by (intro allI exI [of _ "[Get url]"]) (simp add: get_def record_event_def)

lemma blind_bind_action:
  assumes "blind m" and "\<And>x. blind (f x)"
  shows "blind (bind_action m f)"
proof (rule blindI)
  fix d
  obtain n1 where n1: "quiet n1" "appends m d n1" using blindD [OF assms(1)] by blast
  obtain r d1 where m: "m d = (r, d1)" by (cases "m d")
  have m': "m (d\<lparr>events := es\<rparr>) = (r, d1\<lparr>events := es @ n1\<rparr>)" for es
    using n1(2) m by (simp add: appends_def)
  show "\<exists>new. quiet new \<and> appends (bind_action m f) d new"
  proof (cases r)
    case (Inl e)
    then show ?thesis
      using n1(1) m m' by (intro exI [of _ n1]) (simp add: appends_def bind_action_def)
  next
    case (Inr x)
    obtain n2 where n2: "quiet n2" "appends (f x) d1 n2" using blindD [OF assms(2)] by blast
    have "f x (d1\<lparr>events := es\<rparr>) = (fst (f x d1), (snd (f x d1))\<lparr>events := es @ n2\<rparr>)" for es
      using n2(2) by (simp add: appends_def)
    then show ?thesis
      using n1(1) n2(1) m m' Inr
      by (intro exI [of _ "n1 @ n2"]) (simp add: appends_def bind_action_def)
  qed
qed

lemma blind_run_steps:
  assumes "list_all blind steps"
  shows "blind (run_steps steps)"
  using assms
proof (induction steps)
  case Nil
  show ?case by (rule blindI, rule exI [of _ "[]"]) (simp add: appends_def)
next
  case (Cons a steps)
  then have a: "blind a" and rest: "blind (run_steps steps)" by simp_all
  show ?case
  proof (rule blindI)
    fix d
    obtain n1 where n1: "quiet n1" "appends a d n1" using blindD [OF a] by blast
    obtain r d1 where m: "a d = (r, d1)" by (cases "a d")
    have m': "a (d\<lparr>events := es\<rparr>) = (r, d1\<lparr>events := es @ n1\<rparr>)" for es
      using n1(2) m by (simp add: appends_def)
    show "\<exists>new. quiet new \<and> appends (run_steps (a # steps)) d new"
    proof (cases r)
      case (Inl e)
      then show ?thesis
        using n1(1) m m' by (intro exI [of _ n1]) (simp add: appends_def)
    next
      case (Inr x)
      obtain n2 where n2: "quiet n2" "appends (run_steps steps) d1 n2" using blindD [OF rest] by blast
      have "run_steps steps (d1\<lparr>events := es\<rparr>)
              = (fst (run_steps steps d1), (snd (run_steps steps d1))\<lparr>events := es @ n2\<rparr>)" for es
        using n2(2) by (simp add: appends_def)
      then show ?thesis
        using n1(1) n2(1) m m' Inr
        by (intro exI [of _ "n1 @ n2"]) (simp add: appends_def)
    qed
  qed
qed

lemma blind_click_id: "blind (click_id p i)"
  unfolding click_id_def by (intro blind_bind_action blind_find_element_by_id blind_click)

lemma blind_locate_id: "blind (locate_id p i)"
  unfolding locate_id_def by (intro blind_bind_action blind_find_element_by_id blind_raise_or_return)

lemmas blind_intros =
  blind_bind_action blind_run_steps blind_click_id blind_locate_id blind_find_element_by_id
  blind_click blind_clear blind_send_keys blind_raise_or_return blind_always
  blind_update_sleep blind_update_get






lemma blind_updateD:
  "blind_update f \<Longrightarrow> \<exists>new. quiet new \<and> (\<forall>es. f (d\<lparr>events := es\<rparr>) = (f d)\<lparr>events := es @ new\<rparr>)"
  by (simp add: blind_update_def)

lemma blind_update_current:
  assumes "blind_update f"
  shows "current (f (d\<lparr>events := es\<rparr>)) = current (f d)"
proof -
  obtain new where "\<forall>es. f (d\<lparr>events := es\<rparr>) = (f d)\<lparr>events := es @ new\<rparr>"
    using blind_updateD [OF assms] by blast
  then show ?thesis by simp
qed




lemma blind_update_quit: "blind_update quit"
  unfolding blind_update_def
  by (intro allI exI [of _ "[Quit]"]) (simp add: quit_def record_event_def)


















section \<open>The agency prefix in the workflow\<close>






section \<open>The claims\<close>

subsection \<open>Dates\<close>

lemma toordinal_2019_03_01: "toordinal \<lparr>year = 2019, month = 3, day = 1\<rparr> = 737119"
  by (simp add: toordinal_def ymd2ord_def days_before_year_def days_before_month_def
      DAYS_BEFORE_MONTH_def is_leap_def)

lemma valid_2019_03_01: "valid_date \<lparr>year = 2019, month = 3, day = 1\<rparr>"
  by (simp add: valid_date_def MINYEAR_def MAXYEAR_def days_in_month_def DAYS_IN_MONTH_def)

lemma toordinal_0001_03_31: "toordinal \<lparr>year = 1, month = 3, day = 31\<rparr> = 90"
  by (simp add: toordinal_def ymd2ord_def days_before_year_def days_before_month_def
      DAYS_BEFORE_MONTH_def is_leap_def)

lemma valid_0001_03_31: "valid_date \<lparr>year = 1, month = 3, day = 31\<rparr>"
  by (simp add: valid_date_def MINYEAR_def MAXYEAR_def days_in_month_def DAYS_IN_MONTH_def)

text \<open>
  C6, as stated, fails at two dates that \<^verbatim>\<open>date\<close> accepts: 90 days before 0001-03-31
  there is no date, and the call raises \<^verbatim>\<open>OverflowError\<close>; and the year 999 is
  printed with three digits, so the result is not of the form MM/DD/YYYY.
\<close>

theorem calculate_start_date_early_dates:
  "valid_date \<lparr>year = 1, month = 3, day = 31\<rparr>
   \<and> calculate_start_date 90 \<lparr>year = 1, month = 3, day = 31\<rparr> = Inl OverflowError
   \<and> valid_date \<lparr>year = 999, month = 12, day = 5\<rparr>
   \<and> calculate_start_date 0 \<lparr>year = 999, month = 12, day = 5\<rparr> = Inr ''12/05/999''"
  by code_simp

text \<open>
  C6, amended. For every date \<open>D\<close> that \<^verbatim>\<open>date\<close> accepts, \<^verbatim>\<open>_calculate_start_date\<close> with
  \<^verbatim>\<open>time_difference=0\<close> returns \<open>D\<close> as formatted by \<^verbatim>\<open>_format_date_for_fac_fields\<close>.
  With 90 it returns, in the same format, the date whose ordinal is 90 less when \<open>D\<close> is
  0001-04-01 (ordinal 91) or later, and raises \<^verbatim>\<open>OverflowError\<close> for the 90 dates before
  that. The format of a date is its month in two digits, a slash, its day in two digits,
  a slash, and its year in decimal without padding: all characters but the two slashes
  are digits, and the text has the ten characters of MM/DD/YYYY exactly when the year is
  1000 or later.
\<close>

theorem calculate_start_date_days_earlier:
  assumes "valid_date D"
  shows "calculate_start_date 0 D = Inr (format_date_for_fac_fields D)
       \<and> (90 < toordinal D \<longrightarrow>
            (\<exists>S. valid_date S \<and> toordinal S = toordinal D - 90
               \<and> calculate_start_date 90 D = Inr (format_date_for_fac_fields S)))
       \<and> (toordinal D \<le> 90 \<longrightarrow> calculate_start_date 90 D = Inl OverflowError)
       \<and> toordinal \<lparr>year = 1, month = 4, day = 1\<rparr> = 91
       \<and> (\<forall>S. valid_date S \<longrightarrow>
            format_date_for_fac_fields S
              = zero_pad2 (month S) @ ''/'' @ zero_pad2 (day S) @ ''/'' @ str (year S)
            \<and> (length (format_date_for_fac_fields S) = 10) = (1000 \<le> year S)
            \<and> format_date_for_fac_fields S ! 2 = CHR ''/''
            \<and> format_date_for_fac_fields S ! 5 = CHR ''/''
            \<and> (\<forall>i<length (format_date_for_fac_fields S). i \<noteq> 2 \<and> i \<noteq> 5
                  \<longrightarrow> format_date_for_fac_fields S ! i \<in> set digit_chars))"
proof (intro conjI)
  note ok = toordinal_ok [OF assms]
  show "calculate_start_date 0 D = Inr (format_date_for_fac_fields D)"
    using ok by (simp add: calculate_start_date_def timedelta_def date_sub_def Let_def)
  show "90 < toordinal D \<longrightarrow>
            (\<exists>S. valid_date S \<and> toordinal S = toordinal D - 90
               \<and> calculate_start_date 90 D = Inr (format_date_for_fac_fields S))"
  proof
    assume gt: "90 < toordinal D"
    let ?S = "ord2ymd (toordinal D - 90)"
    have rng: "1 \<le> toordinal D - 90" "toordinal D - 90 \<le> MAXORDINAL" using gt ok by simp_all
    have "valid_date ?S \<and> toordinal ?S = toordinal D - 90" by (rule ord2ymd_ok [OF rng])
    moreover have "calculate_start_date 90 D = Inr (format_date_for_fac_fields ?S)"
      using rng by (simp add: calculate_start_date_def timedelta_def date_sub_def Let_def)
    ultimately show "\<exists>S. valid_date S \<and> toordinal S = toordinal D - 90
               \<and> calculate_start_date 90 D = Inr (format_date_for_fac_fields S)"
      by blast
  qed
  show "toordinal D \<le> 90 \<longrightarrow> calculate_start_date 90 D = Inl OverflowError"
    by (simp add: calculate_start_date_def timedelta_def date_sub_def Let_def)
  show "toordinal \<lparr>year = 1, month = 4, day = 1\<rparr> = 91"
    by (simp add: toordinal_def ymd2ord_def days_before_year_def days_before_month_def
        DAYS_BEFORE_MONTH_def is_leap_def)
  show "\<forall>S. valid_date S \<longrightarrow>
            format_date_for_fac_fields S
              = zero_pad2 (month S) @ ''/'' @ zero_pad2 (day S) @ ''/'' @ str (year S)
            \<and> (length (format_date_for_fac_fields S) = 10) = (1000 \<le> year S)
            \<and> format_date_for_fac_fields S ! 2 = CHR ''/''
            \<and> format_date_for_fac_fields S ! 5 = CHR ''/''
            \<and> (\<forall>i<length (format_date_for_fac_fields S). i \<noteq> 2 \<and> i \<noteq> 5
                  \<longrightarrow> format_date_for_fac_fields S ! i \<in> set digit_chars)"
    using format_date_for_fac_fields_layout
    by (simp add: format_date_for_fac_fields_def strftime_mdY_def)
qed

theorem calculate_start_date_2019_03_01:
  "calculate_start_date 0 \<lparr>year = 2019, month = 3, day = 1\<rparr> = Inr ''03/01/2019''
   \<and> (\<exists>S. valid_date S \<and> toordinal S = 737029
         \<and> calculate_start_date 90 \<lparr>year = 2019, month = 3, day = 1\<rparr>
             = Inr (format_date_for_fac_fields S))
   \<and> length (format_date_for_fac_fields \<lparr>year = 2019, month = 3, day = 1\<rparr>) = 10
   \<and> calculate_start_date 90 \<lparr>year = 1, month = 3, day = 31\<rparr> = Inl OverflowError"
  using calculate_start_date_days_earlier [OF valid_2019_03_01] valid_2019_03_01
    calculate_start_date_days_earlier [OF valid_0001_03_31]
  by (simp add: toordinal_2019_03_01 toordinal_0001_03_31 format_date_for_fac_fields_def
      strftime_mdY_def zero_pad2_def str_def str_nat.simps digit_chars_def)

subsection \<open>CFDA numbers\<close>

text \<open>
  C10. \<^verbatim>\<open>validate_cfda_number\<close> raises \<^verbatim>\<open>ValidationError\<close> exactly when the decimal
  string of its argument does not have length 5. The accepted integers are therefore
  10000..99999 and the negative four-digit integers -9999..-1000, whose string has a minus
  sign and four digits. It is the only validator that the model lists for \<^verbatim>\<open>Grant.cfda\<close>,
  and running the field's validators accepts exactly the same integers.
\<close>

theorem validate_cfda_number_length:
  "(validate_cfda_number n = Inl ValidationError) = (length (str n) \<noteq> 5)
   \<and> (validate_cfda_number n = Inr ()) = ((10000 \<le> n \<and> n \<le> 99999) \<or> (- 9999 \<le> n \<and> n \<le> - 1000))
   \<and> Grant_cfda_validators = [validate_cfda_number]
   \<and> run_validators Grant_cfda_validators n = validate_cfda_number n"
proof -
  have "(validate_cfda_number n = Inr ()) = (length (str n) = 5)"
    by (simp add: validate_cfda_number_def)
  moreover have "run_validators Grant_cfda_validators n = validate_cfda_number n"
    by (simp add: Grant_cfda_validators_def validate_cfda_number_def)
  ultimately show ?thesis
    by (simp add: length_str_5 validate_cfda_number_def Grant_cfda_validators_def)
qed

subsection \<open>The download links of a result page\<close>

text \<open>
  C1. On a page with slots 0 to 4 of the 25 present, \<^verbatim>\<open>download_one_set_of_result_files\<close>
  clicks 25 times: once on each of the five links, and then, for each of the 20 missing
  slots, again on the link of slot 4, which the local variable still holds. On a page
  where slot 0 is missing, it raises \<^verbatim>\<open>UnboundLocalError\<close> in the first round and clicks
  nothing, although slots 1 to 5 are present.
\<close>

theorem missing_slot_clicks_previous_link:
  "download_one_set_of_result_files five_of_25 ''SF-SAC'' on_results_page
     = (Inr True,
        on_results_page\<lparr>events :=
          map (Click 11) (result_link_ids ''Form'' 5 @ replicate 20 (result_link_name ''Form'' 4))\<rparr>)
   \<and> download_one_set_of_result_files first_slot_missing ''SF-SAC'' on_results_page
     = (Inl UnboundLocalError, on_results_page)"
  by code_simp

subsection \<open>The agency highlights\<close>

text \<open>
  C7. \<^verbatim>\<open>filter_general_table_by_agency\<close> reads the name \<^verbatim>\<open>files_directory\<close>, which the
  module does not bind (it binds \<^verbatim>\<open>FILES_DIRECTORY\<close>), so for every table and every
  agency prefix \<^verbatim>\<open>derive_agency_highlights\<close> raises \<^verbatim>\<open>NameError\<close> and returns no counts.
\<close>

theorem derive_agency_highlights_raises_NameError:
  "derive_agency_highlights base_dir read_csv name_from_prefix agency_prefix filename
     = Inl NameError"
  by (simp add: derive_agency_highlights_def filter_general_table_by_agency_def load_global_def
      module_strings_def)

subsection \<open>The dates typed into the search form\<close>

text \<open>
  C9. In a process that imported views.py on 2019-01-01, a call on 2019-03-01 types
  10/03/2018 into the "from" field, which is 90 days before the import, where 90 days
  before the call is 12/01/2018. It types 02/28/2019, the day before the call, into the
  "to" field.
\<close>

theorem from_date_counts_from_import_day:
  "fst (search_fac (demo_env no_items) ''20'' (PyStr ''5'') started_browser) = Inr ()
   \<and> SendKeys 1 ''MainContent_UcSearchFilters_DateProcessedControl_FromDate'' (Typed ''10/03/2018'')
       \<in> set (events (snd (search_fac (demo_env no_items) ''20'' (PyStr ''5'') started_browser)))
   \<and> SendKeys 1 ''MainContent_UcSearchFilters_DateProcessedControl_ToDate'' (Typed ''02/28/2019'')
       \<in> set (events (snd (search_fac (demo_env no_items) ''20'' (PyStr ''5'') started_browser)))
   \<and> calculate_start_date 90 (today (demo_env no_items)) = Inr ''12/01/2018''"
  by code_simp


subsection \<open>The pager\<close>

text \<open>
  C2. Let the result pages be the documents \<open>r 1\<close> to \<open>r K\<close>, where clicks on download
  links stay on the page, the pager row of page \<open>n < K\<close> has a link labelled \<open>n + 1\<close> that
  leads to page \<open>n + 1\<close>, and page \<open>K\<close> has no link labelled \<open>K + 1\<close>. Started on
  page 1, the loop returns with page index \<open>K\<close> on page \<open>K\<close>. Apart from clicks on
  download links, it has entered \<^verbatim>\<open>download_all_linked_files\<close> once on each of the pages
  1 to \<open>K\<close> and followed the links 2 to \<open>K\<close> in between, and nothing else. The lookup of
  the next link gives nothing exactly when the page has no pager row or the row has no
  link labelled with the next number.
\<close>

theorem pager_loop_visits_pages_1_to_K:
  fixes r :: "nat \<Rightarrow> doc"
  assumes "1 \<le> K" and "current d = r 1"
    and "\<forall>m. 1 \<le> m \<and> m \<le> K \<longrightarrow> stays p (r m)"
    and "\<forall>m. 1 \<le> m \<and> m < K \<longrightarrow>
           (\<exists>links. pager_links p (r m) = Some links
              \<and> find (\<lambda>l. fst l = str (int (m + 1))) links = Some (str (int (m + 1)), r (m + 1)))"
    and "case pager_links p (r K) of
           None \<Rightarrow> True
         | Some links \<Rightarrow> find (\<lambda>l. fst l = str (int (K + 1))) links = None"
  shows "(\<exists>d' new. download_result_pages p d = Some (Inr K, d')
            \<and> current d' = r K \<and> events d' = events d @ new
            \<and> filter (\<lambda>e. \<not> is_click e) new
                = CalledDownloadAll (r 1)
                  # concat (map (\<lambda>m. [FollowLink (r m) (str (int (m + 1))), CalledDownloadAll (r (m + 1))])
                             [1..<K]))
       \<and> (\<forall>x n. (get_next_pager_link p x n = None)
             = (case pager_links p (current x) of
                  None \<Rightarrow> True
                | Some links \<Rightarrow> find (\<lambda>l. fst l = str (int (n + 1))) links = None))"
  using download_result_pages_visits [OF assms] get_next_pager_link_None_iff [of p] by blast

theorem pager_loop_three_pages:
  "\<exists>d' new. download_result_pages three_pages on_results_page = Some (Inr 3, d')
      \<and> current d' = 13 \<and> events d' = new
      \<and> filter (\<lambda>e. \<not> is_click e) new
          = [CalledDownloadAll 11, FollowLink 11 ''2'', CalledDownloadAll 12,
             FollowLink 12 ''3'', CalledDownloadAll 13]"
proof -
  have s1: "str 1 = ''1''" and s2: "str 2 = ''2''" and s3: "str 3 = ''3''" and s4: "str 4 = ''4''"
    by (simp_all add: str_def str_nat.simps digit_chars_def)
  have a: "(1::nat) \<le> 3" by simp
  have b: "current on_results_page = result_document 1"
    by (simp add: on_results_page_def result_document_def)
  have c: "\<forall>m. 1 \<le> m \<and> m \<le> 3 \<longrightarrow> stays three_pages (result_document m)"
    by (simp add: stays_def three_pages_def simulated_fac_def result_document_def)
  have d: "\<forall>m. 1 \<le> m \<and> m < 3 \<longrightarrow>
           (\<exists>links. pager_links three_pages (result_document m) = Some links
              \<and> find (\<lambda>l. fst l = str (int (m + 1))) links
                  = Some (str (int (m + 1)), result_document (m + 1)))"
  proof (intro allI impI)
    fix m :: nat
    assume "1 \<le> m \<and> m < 3"
    then have "m = 1 \<or> m = 2" by arith
    then show "\<exists>links. pager_links three_pages (result_document m) = Some links
              \<and> find (\<lambda>l. fst l = str (int (m + 1))) links
                  = Some (str (int (m + 1)), result_document (m + 1))"
      by (auto simp add: three_pages_def simulated_fac_def result_document_def upt_rec s1 s2 s3)
  qed
  have e: "case pager_links three_pages (result_document 3) of
           None \<Rightarrow> True
         | Some links \<Rightarrow> find (\<lambda>l. fst l = str (int (3 + 1))) links = None"
    by (simp add: three_pages_def simulated_fac_def result_document_def upt_rec s1 s2 s4)
  from pager_loop_visits_pages_1_to_K [OF a b c d e]
  show ?thesis
    by (simp add: result_document_def on_results_page_def upt_rec s2 s3)
qed


subsection \<open>The wait for the downloads\<close>

lemma demo_env_never_finished:
  "\<forall>n\<le>500. \<not> (all_complete (fac (demo_env never_finished)) (k + n)
                  \<and> download_items (fac (demo_env never_finished)) (k + n) \<noteq> [])"
  by (simp add: all_complete_def demo_env_def simulated_fac_def never_finished_def in_progress_item_def)

text \<open>
  C3. When the steps before the wait have succeeded and none of the polls 0 to 500 of the
  wait finds a non-empty list of items that are all complete, \<^verbatim>\<open>download_files_from_fac\<close>
  raises \<^verbatim>\<open>TimeoutException\<close> after 501 polls: it returns no response.
\<close>

theorem timeout_reaches_the_caller:
  assumes "search_and_download ev a s = Some (Inr k, d)"
    and "\<forall>n\<le>500. \<not> (all_complete (fac ev) (scripts_run d + n)
                        \<and> download_items (fac ev) (scripts_run d + n) \<noteq> [])"
  shows "\<exists>d'. download_files_from_fac ev a s = Some (Inl TimeoutException, d')
           \<and> scripts_run d' = scripts_run d + 501"
  using timeout_propagates [OF assms] by blast

theorem timeout_reaches_the_caller_demo:
  "\<exists>d'. download_files_from_fac (demo_env never_finished) PyNone PyNone
           = Some (Inl TimeoutException, d')
        \<and> scripts_run d' = 501"
proof -
  obtain k d where sd: "search_and_download (demo_env never_finished) PyNone PyNone = Some (Inr k, d)"
    and z: "scripts_run d = 0"
    using demo_env_reaches_wait [of never_finished]
    by (auto split: option.splits prod.splits sum.splits)
  from timeout_reaches_the_caller [OF sd demo_env_never_finished] z show ?thesis by simp
qed

text \<open>
  C8, as stated, fails when the download manager lists no item: at poll 0 every item is
  complete and the script returns the empty list, which the wait takes for "not yet"; it
  polls on and raises \<^verbatim>\<open>TimeoutException\<close>.
\<close>

theorem empty_download_list_times_out:
  "all_complete without_downloads 0
   \<and> completed_paths without_downloads 0 = []
   \<and> fst (WebDriverWait_until without_downloads 500 started_browser) = Inl TimeoutException"
proof -
  have "\<forall>j. clock started_browser + j \<le> clock started_browser + 500 \<longrightarrow>
          \<not> (all_complete without_downloads (scripts_run started_browser + j)
             \<and> download_items without_downloads (scripts_run started_browser + j) \<noteq> [])"
    by (simp add: without_downloads_def simulated_fac_def no_items_def)
  then have "fst (until_loop without_downloads (clock started_browser + 500) started_browser)
      = Inl TimeoutException"
    using until_loop_timeout [of started_browser "clock started_browser + 500" without_downloads]
    by simp
  then show ?thesis
    by (simp add: WebDriverWait_until_def all_complete_def completed_paths_def
        without_downloads_def simulated_fac_def no_items_def)
qed

text \<open>
  C8, amended. When poll \<open>n\<close> of the wait (counted from 0, at most 500) is the first that
  finds a non-empty list of items that are all complete, the wait returns the paths of the
  items listed at that poll, after \<open>n + 1\<close> polls and \<open>n\<close> seconds.
\<close>

theorem wait_returns_at_first_complete_poll:
  assumes "n \<le> 500"
    and "download_items p (scripts_run d + n) \<noteq> []"
    and "all_complete p (scripts_run d + n)"
    and "\<forall>j<n. \<not> (all_complete p (scripts_run d + j) \<and> download_items p (scripts_run d + j) \<noteq> [])"
  shows "fst (WebDriverWait_until p 500 d) = Inr (completed_paths p (scripts_run d + n))
       \<and> scripts_run (snd (WebDriverWait_until p 500 d)) = scripts_run d + n + 1
       \<and> clock (snd (WebDriverWait_until p 500 d)) = clock d + n"
  using until_loop_success [of d n "clock d + 500" p] assms
  by (simp add: WebDriverWait_until_def)

theorem wait_returns_at_poll_3:
  "fst (WebDriverWait_until finishing_at_3 500 started_browser) = Inr [Some ''file:///tmp/20-1.xls'']
   \<and> scripts_run (snd (WebDriverWait_until finishing_at_3 500 started_browser)) = 4
   \<and> clock (snd (WebDriverWait_until finishing_at_3 500 started_browser)) = 3"
proof -
  have z: "scripts_run started_browser = 0" "clock started_browser = 0"
    by (simp_all add: started_browser_def no_browser_def)
  have a: "(3::nat) \<le> 500" by simp
  have b: "download_items finishing_at_3 (scripts_run started_browser + 3) \<noteq> []"
    by (simp add: z finishing_at_3_def simulated_fac_def finished_at_3_def)
  have c: "all_complete finishing_at_3 (scripts_run started_browser + 3)"
    by (simp add: z all_complete_def finishing_at_3_def simulated_fac_def finished_at_3_def
        completed_item_def)
  have d: "\<forall>j<3. \<not> (all_complete finishing_at_3 (scripts_run started_browser + j)
                    \<and> download_items finishing_at_3 (scripts_run started_browser + j) \<noteq> [])"
    by (simp add: z all_complete_def finishing_at_3_def simulated_fac_def finished_at_3_def
        in_progress_item_def)
  from wait_returns_at_first_complete_poll [OF a b c d]
  show ?thesis
    by (simp add: z completed_paths_def finishing_at_3_def simulated_fac_def finished_at_3_def
        completed_item_def js_or_def)
qed

subsection \<open>The browser session\<close>

text \<open>
  C4, as stated, fails on the timeout: the function raises \<^verbatim>\<open>TimeoutException\<close> and the
  browser session is still open.
\<close>

theorem session_left_open_after_timeout:
  "map_option fst (download_files_from_fac (demo_env never_finished) PyNone PyNone)
     = Some (Inl TimeoutException)
   \<and> map_option (session_open \<circ> snd) (download_files_from_fac (demo_env never_finished) PyNone PyNone)
     = Some True"
proof -
  obtain k d where sd: "search_and_download (demo_env never_finished) PyNone PyNone = Some (Inr k, d)"
    and z: "session_open d"
    using demo_env_reaches_wait [of never_finished]
    by (auto split: option.splits prod.splits sum.splits)
  from timeout_propagates [OF sd demo_env_never_finished] z show ?thesis by auto
qed

text \<open>
  C4, amended. Whenever \<^verbatim>\<open>download_files_from_fac\<close> ends, the browser session is open
  exactly if the browser was started and the function ended with an exception: the session
  is closed on the normal return, and on no exit by an exception.
\<close>

theorem session_closed_on_return_only:
  assumes "download_files_from_fac ev a s = Some (r, d)"
  shows "session_open d = (chromedriver_present ev \<and> isl r)"
  using assms
proof (cases rule: download_files_from_fac_cases)
  case (before e)
  then show ?thesis using search_and_download_state(1) [OF before(1)] by simp
next
  case (timed_out k d1 e)
  have "session_open d = session_open d1"
    using WebDriverWait_until_extends(1) [of "fac ev" 500 d1] timed_out(2) by simp
  moreover have "session_open d1 = chromedriver_present ev"
    by (rule search_and_download_state(1) [OF timed_out(1)])
  ultimately show ?thesis using timed_out(3) by simp
next
  case (returned k d1 paths d2)
  then show ?thesis by (simp add: quit_def record_event_def)
qed

lemma demo_env_finished_at_3:
  "case download_files_from_fac (demo_env finished_at_3) PyNone PyNone of
     Some (Inr response, d) \<Rightarrow> True
   | _ \<Rightarrow> False"
  by code_simp

theorem session_closed_after_downloads:
  "\<exists>d. download_files_from_fac (demo_env finished_at_3) PyNone PyNone
          = Some (Inr download_completed_response, d)
       \<and> \<not> session_open d"
proof -
  obtain r d where run: "download_files_from_fac (demo_env finished_at_3) PyNone PyNone = Some (Inr r, d)"
    using demo_env_finished_at_3 by (auto split: option.splits prod.splits sum.splits)
  then have r: "r = download_completed_response"
    by (cases rule: download_files_from_fac_cases) simp_all
  from session_closed_on_return_only [OF run] r run show ?thesis by simp
qed

subsection \<open>The agency prefix\<close>






end
